theory Spec2Isabelle
  imports Complex_Main "HOL-Library.Sublist"
begin

section \<open>Strings\<close>

text \<open>
  A JavaScript string is a sequence of UTF-16 code units. The model covers the strings
  whose code units are below 256 (ASCII and Latin-1): a \<^typ>\<open>char\<close> is one code unit
  and \<open>code\<close> is its number. Scores are JavaScript numbers; they are modelled as
  exact reals, so the decimal constants of the source mean the rationals they denote.
\<close>

definition code :: "char \<Rightarrow> nat" where
  "code c = of_char c"

text \<open>The regular expression class \<open>\s\<close> below 256: tab, LF, VT, FF, CR, space, NBSP.\<close>

definition isWhitespace :: "char \<Rightarrow> bool" where
  "isWhitespace c = ((9 \<le> code c \<and> code c \<le> 13) \<or> code c = 32 \<or> code c = 160)"

text \<open>The class \<open>[\x00-\x1F\x7F]\<close>.\<close>

definition isControl :: "char \<Rightarrow> bool" where
  "isControl c = (code c \<le> 31 \<or> code c = 127)"

text \<open>The class \<open>[<>"'&]\<close>: code units 60, 62, 34, 39 and 38.\<close>

definition isMarkup :: "char \<Rightarrow> bool" where
  "isMarkup c = (code c = 60 \<or> code c = 62 \<or> code c = 34 \<or> code c = 39 \<or> code c = 38)"

text \<open>The class \<open>[a-zA-Z]\<close>.\<close>

definition isLetter :: "char \<Rightarrow> bool" where
  "isLetter c = ((65 \<le> code c \<and> code c \<le> 90) \<or> (97 \<le> code c \<and> code c \<le> 122))"

text \<open>
  \<open>String.prototype.toLowerCase\<close> below 256 maps \<open>A\<close>--\<open>Z\<close> and the Latin-1 capitals
  192--222 (without the multiplication sign 215) to the code unit 32 above, which is the
  same code unit with bit 5 set, and leaves every other code unit alone.
\<close>

definition isUpper :: "char \<Rightarrow> bool" where
  "isUpper c = ((65 \<le> code c \<and> code c \<le> 90) \<or>
                (192 \<le> code c \<and> code c \<le> 214) \<or> (216 \<le> code c \<and> code c \<le> 222))"

fun setBit5 :: "char \<Rightarrow> char" where
  "setBit5 (Char b0 b1 b2 b3 b4 b5 b6 b7) = Char b0 b1 b2 b3 b4 True b6 b7"

definition lowerChar :: "char \<Rightarrow> char" where
  "lowerChar c = (if isUpper c then setBit5 c else c)"

definition toLowerCase :: "string \<Rightarrow> string" where
  "toLowerCase s = map lowerChar s"

text \<open>\<open>String.prototype.trim\<close>.\<close>

definition trim :: "string \<Rightarrow> string" where
  "trim s = rev (dropWhile isWhitespace (rev (dropWhile isWhitespace s)))"

text \<open>\<open>s.includes(t)\<close>: \<open>t\<close> occurs in \<open>s\<close> as a contiguous substring.\<close>

fun includesStr :: "string \<Rightarrow> string \<Rightarrow> bool" where
  "includesStr [] t = (t = [])"
| "includesStr (c # s) t = (prefix t (c # s) \<or> includesStr s t)"

text \<open>\<open>s.replace(/\s+/g, ' ')\<close>: every maximal run of whitespace becomes one space.\<close>

function collapseWhitespace :: "string \<Rightarrow> string" where
  "collapseWhitespace [] = []"
| "collapseWhitespace (c # s) =
     (if isWhitespace c then CHR '' '' # collapseWhitespace (dropWhile isWhitespace s)
      else c # collapseWhitespace s)"
  by pat_completeness auto
termination
  by (relation "measure length") (auto simp: less_Suc_eq_le length_dropWhile_le)

text \<open>
  \<open>s.split(/\s+/)\<close>: the pieces between the maximal runs of whitespace, an empty piece
  before a leading and after a trailing run included. \<open>cur\<close> is the piece being read,
  reversed.
\<close>

function splitFrom :: "string \<Rightarrow> string \<Rightarrow> string list" where
  "splitFrom cur [] = [rev cur]"
| "splitFrom cur (c # s) =
     (if isWhitespace c then rev cur # splitFrom [] (dropWhile isWhitespace s)
      else splitFrom (c # cur) s)"
  by pat_completeness auto
termination
  by (relation "measure (\<lambda>(cur, s). length s)") (auto simp: less_Suc_eq_le length_dropWhile_le)

definition splitWhitespace :: "string \<Rightarrow> string list" where
  "splitWhitespace s = splitFrom [] s"

section \<open>Sanitization and validation\<close>

definition sanitizeInput :: "string \<Rightarrow> string" where
  "sanitizeInput input =
     trim (filter (\<lambda>c. \<not> isControl c)
            (collapseWhitespace (filter (\<lambda>c. \<not> isMarkup c) input)))"

datatype message = MsgEmpty | MsgTooShort | MsgTooLong | MsgInvalidCharacters | MsgValid

record validation =
  valid :: bool
  sanitized :: string
  message :: message

definition validateSearchInput :: "string \<Rightarrow> validation" where
  "validateSearchInput input =
     (let s = sanitizeInput input in
      if length s = 0 then \<lparr>valid = True, sanitized = s, message = MsgEmpty\<rparr>
      else if length s < 2 then \<lparr>valid = False, sanitized = s, message = MsgTooShort\<rparr>
      else if length s > 100 then \<lparr>valid = False, sanitized = s, message = MsgTooLong\<rparr>
      else if \<not> list_ex isLetter s
        then \<lparr>valid = False, sanitized = s, message = MsgInvalidCharacters\<rparr>
      else \<lparr>valid = True, sanitized = s, message = MsgValid\<rparr>)"

section \<open>Edit distance and fuzzy score\<close>

text \<open>
  \<open>levenshteinDistance\<close> fills a matrix row by row; row \<open>i\<close> belongs to the first
  \<open>i\<close> characters of \<open>str2\<close>, column \<open>j\<close> to the first \<open>j\<close> characters of \<open>str1\<close>.
  A cell reads only its own row and the row above, so the model passes the row above
  along. \<open>fillRow c str1 prev left\<close> is the inner loop from the column whose
  character is the head of \<open>str1\<close>: \<open>prev\<close> is the row above from the column to the
  left, \<open>left\<close> is the cell just written.
\<close>

fun fillRow :: "char \<Rightarrow> string \<Rightarrow> nat list \<Rightarrow> nat \<Rightarrow> nat list" where
  "fillRow c (a # str1) (d # u # prev) left =
     (let v = (if c = a then d else min (d + 1) (min (left + 1) (u + 1)))
      in v # fillRow c str1 (u # prev) v)"
| "fillRow c str1 prev left = []"

text \<open>The outer loop: \<open>prev\<close> is row \<open>i - 1\<close>, the new row starts with \<open>matrix[i][0] = i\<close>.\<close>

fun fillRows :: "string \<Rightarrow> string \<Rightarrow> nat list \<Rightarrow> nat \<Rightarrow> nat list" where
  "fillRows str1 [] prev i = prev"
| "fillRows str1 (c # str2) prev i = fillRows str1 str2 (i # fillRow c str1 prev i) (Suc i)"

definition levenshteinDistance :: "string \<Rightarrow> string \<Rightarrow> nat" where
  "levenshteinDistance str1 str2 = last (fillRows str1 str2 [0..<Suc (length str1)] 1)"

text \<open>
  The recurrence behind the matrix, used to reason about the loops: \<open>cell xs ys\<close> is
  the entry for a prefix of \<open>str1\<close> and a prefix of \<open>str2\<close>, both given last character
  first. Row 0 and column 0 hold the lengths; an entry is the diagonal neighbour when the
  two last characters agree and one more than the least of its three neighbours otherwise.
\<close>

fun cell :: "string \<Rightarrow> string \<Rightarrow> nat" where
  "cell xs [] = length xs"
| "cell [] ys = length ys"
| "cell (a # xs) (c # ys) =
     (if c = a then cell xs ys
      else min (cell xs ys + 1) (min (cell xs (c # ys) + 1) (cell (a # xs) ys + 1)))"

text \<open>
  The edit distance in the words of the specification, for comparison with the code:
  the classic recurrence with unit cost for a substitution, an insertion and a deletion,
  where a substitution of a character by itself is free.
\<close>

fun classicLevenshtein :: "string \<Rightarrow> string \<Rightarrow> nat" where
  "classicLevenshtein xs [] = length xs"
| "classicLevenshtein [] ys = length ys"
| "classicLevenshtein (a # xs) (c # ys) =
     min (classicLevenshtein xs ys + (if c = a then 0 else 1))
       (min (classicLevenshtein xs (c # ys) + 1) (classicLevenshtein (a # xs) ys + 1))"

text \<open>The loop of the prefix bonus counts the leading positions where both strings agree.\<close>

fun commonPrefix :: "string \<Rightarrow> string \<Rightarrow> nat" where
  "commonPrefix (a # s) (b # t) = (if a = b then Suc (commonPrefix s t) else 0)"
| "commonPrefix s t = 0"

definition calculateFuzzyMatch :: "string \<Rightarrow> string \<Rightarrow> real" where
  "calculateFuzzyMatch str1 str2 =
     (let distance = levenshteinDistance str1 str2;
          maxLength = max (length str1) (length str2)
      in if maxLength = 0 then 1
         else let similarity = 1 - real distance / real maxLength;
                  prefixBonus = real (commonPrefix str1 str2) * (1 / 10)
              in min 1 (similarity + prefixBonus))"

section \<open>The dictionary and the matcher\<close>

text \<open>
  A field that is absent (\<open>undefined\<close>) is \<open>None\<close>. An element of the dictionary array
  that is \<open>null\<close> or not an object is \<open>None\<close> as well. The fields \<open>keywords\<close> and
  \<open>context\<close> of an entry are \<open>keywordList\<close> and \<open>usage\<close> here, since both names are
  reserved words of Isabelle, as \<open>includes\<close> is; the fields that a result copies from its
  entry carry the prefix \<open>res\<close>. A secondary meaning is a pair of translation and
  context. The match type \<open>NoType\<close> is the empty string that \<open>matchType\<close> starts with.
\<close>

record buzzword =
  phrase :: "string option"
  translation :: "string option"
  keywordList :: "string list option"
  category :: "string option"
  usage :: "string option"
  alternatives :: "string list option"
  multipleMeanings :: "(string \<times> string) list option"

datatype matchType = NoType | Exact | PhraseContains | QueryContains | Keyword | Fuzzy

record result =
  match :: string
  resTranslation :: "string option"
  relevanceScore :: real
  matchedKeywords :: "string list"
  resCategory :: "string option"
  resUsage :: "string option"
  resAlternatives :: "string list option"
  resMultipleMeanings :: "(string \<times> string) list option"
  matchType :: matchType

datatype error = TypeError | InvalidQuery

record keywordMatches =
  score :: real
  matches :: "string list"

text \<open>One keyword of the inner \<open>forEach\<close>; the state is \<open>(bestMatch, bestKeyword)\<close>.\<close>

definition keywordStep :: "string \<Rightarrow> real \<times> string \<Rightarrow> string \<Rightarrow> real \<times> string" where
  "keywordStep queryWord st keyword =
     (let keywordLower = toLowerCase keyword in
      if keywordLower = queryWord then (max (fst st) 1, queryWord)
      else if includesStr keywordLower queryWord then (max (fst st) (8 / 10), queryWord)
      else if includesStr queryWord keywordLower then (max (fst st) (7 / 10), queryWord)
      else (let fuzzyScore = calculateFuzzyMatch keywordLower queryWord in
            if fuzzyScore > 6 / 10 then (max (fst st) (fuzzyScore * (5 / 10)), queryWord)
            else st))"

text \<open>One query word of the outer \<open>forEach\<close>; the state is \<open>(totalMatches, matchedKeywords)\<close>.\<close>

definition wordStep :: "string list \<Rightarrow> real \<times> string list \<Rightarrow> string \<Rightarrow> real \<times> string list" where
  "wordStep ks st queryWord =
     (let best = foldl (keywordStep queryWord) (0, []) ks in
      if fst best > 0 then (fst st + fst best, snd st @ [snd best]) else st)"

text \<open>
  With \<open>keywords\<close> absent, \<open>buzzword.keywords.forEach\<close> throws a TypeError at the first
  query word; with no query word nothing reads \<open>keywords\<close>.
\<close>

definition calculateKeywordMatches :: "buzzword \<Rightarrow> string list \<Rightarrow> error + keywordMatches" where
  "calculateKeywordMatches b queryWords =
     (case keywordList b of
        None \<Rightarrow> (if queryWords = [] then Inr \<lparr>score = 0, matches = []\<rparr> else Inl TypeError)
      | Some ks \<Rightarrow>
          (let st = foldl (wordStep ks) (0, []) queryWords in
           Inr \<lparr>score = (if fst st > 0
                          then min (85 / 100)
                                 (4 / 10 + fst st / real (max (length queryWords) (length ks)) * (45 / 100))
                          else 0),
                matches = snd st\<rparr>))"

text \<open>\<open>[...new Set(xs)]\<close>: the first occurrence of every element, in order.\<close>

definition dedupe :: "'a list \<Rightarrow> 'a list" where
  "dedupe xs = rev (remdups (rev xs))"

text \<open>Rules 1 to 4: the chain of \<open>if\<close>/\<open>else if\<close>/\<open>else\<close>, giving score, matched keywords and type.\<close>

definition scoreRules :: "buzzword \<Rightarrow> string \<Rightarrow> string \<Rightarrow> string list \<Rightarrow>
    error + (real \<times> string list \<times> matchType)" where
  "scoreRules b ph normalizedQuery queryWords =
     (if ph = normalizedQuery then Inr (1, [normalizedQuery], Exact)
      else if includesStr ph normalizedQuery then Inr (95 / 100, [normalizedQuery], PhraseContains)
      else if includesStr normalizedQuery ph then Inr (9 / 10, [ph], QueryContains)
      else (case calculateKeywordMatches b queryWords of
              Inl e \<Rightarrow> Inl e
            | Inr km \<Rightarrow> (if score km > 0 then Inr (score km, matches km, Keyword)
                         else Inr (0, [], NoType))))"

text \<open>Rule 5, tried when the score is still 0.\<close>

definition fuzzyRule :: "string \<Rightarrow> string \<Rightarrow> real \<times> string list \<times> matchType \<Rightarrow>
    real \<times> string list \<times> matchType" where
  "fuzzyRule ph normalizedQuery st =
     (if fst st = 0
      then (let fuzzyScore = calculateFuzzyMatch ph normalizedQuery in
            if fuzzyScore > 3 / 10 then (fuzzyScore * (6 / 10), [normalizedQuery], Fuzzy) else st)
      else st)"

definition calculateRelevanceScore :: "buzzword \<Rightarrow> string \<Rightarrow> string list \<Rightarrow> error + result" where
  "calculateRelevanceScore b normalizedQuery queryWords =
     (case phrase b of
        None \<Rightarrow> Inl TypeError
      | Some p \<Rightarrow>
          (case scoreRules b (toLowerCase p) normalizedQuery queryWords of
             Inl e \<Rightarrow> Inl e
           | Inr st \<Rightarrow>
               (let st' = fuzzyRule (toLowerCase p) normalizedQuery st in
                Inr \<lparr>match = p, resTranslation = translation b, relevanceScore = fst st',
                     matchedKeywords = dedupe (fst (snd st')), resCategory = category b,
                     resUsage = usage b, resAlternatives = alternatives b,
                     resMultipleMeanings = multipleMeanings b, matchType = snd (snd st')\<rparr>)))"

section \<open>The ranker\<close>

text \<open>The pre-filter of \<open>searchWithFuzzyMatching\<close>.\<close>

definition isRelevant :: "string \<Rightarrow> string list \<Rightarrow> buzzword option \<Rightarrow> bool" where
  "isRelevant normalizedQuery queryWords entry =
     (case entry of
        None \<Rightarrow> False
      | Some b \<Rightarrow>
          (case phrase b of
             None \<Rightarrow> False
           | Some p \<Rightarrow>
               (if p = [] then False
                else includesStr (toLowerCase p) normalizedQuery
                   \<or> list_ex (\<lambda>word. includesStr (toLowerCase p) word) queryWords
                   \<or> (case keywordList b of
                         None \<Rightarrow> False
                       | Some ks \<Rightarrow>
                           list_ex (\<lambda>keyword. includesStr (toLowerCase keyword) normalizedQuery
                                      \<or> list_ex (\<lambda>word. includesStr (toLowerCase keyword) word) queryWords)
                             ks))))"

text \<open>
  The body of the second \<open>forEach\<close>: an entry whose scoring throws is skipped, a result
  is kept when its score is above 0.1.
\<close>

definition scoreEntry :: "string \<Rightarrow> string list \<Rightarrow> buzzword option \<Rightarrow> result list" where
  "scoreEntry normalizedQuery queryWords entry =
     (case entry of
        None \<Rightarrow> []
      | Some b \<Rightarrow>
          (case calculateRelevanceScore b normalizedQuery queryWords of
             Inl e \<Rightarrow> []
           | Inr r \<Rightarrow> (if relevanceScore r > 1 / 10 then [r] else [])))"

text \<open>The comparator handed to \<open>sort\<close>.\<close>

definition compareResults :: "result \<Rightarrow> result \<Rightarrow> real" where
  "compareResults a b =
     (let scoreDiff = relevanceScore b - relevanceScore a in
      if \<bar>scoreDiff\<bar> > 1 / 100 then scoreDiff
      else if matchType a = Exact \<and> matchType b \<noteq> Exact then - 1
      else if matchType b = Exact \<and> matchType a \<noteq> Exact then 1
      else if matchType a = PhraseContains \<and> matchType b \<noteq> PhraseContains then - 1
      else if matchType b = PhraseContains \<and> matchType a \<noteq> PhraseContains then 1
      else real (length (match a)) - real (length (match b)))"

text \<open>
  \<open>Array.prototype.sort\<close> belongs to the JavaScript engine. It is modelled as a stable
  insertion sort: an element goes before the first element it does not come after. For a
  comparator that is a consistent order every conforming engine returns this very list.
  For any other comparator ECMAScript leaves the order to the engine, and the model gives
  the order of this insertion sort.
\<close>

fun insertBy :: "('a \<Rightarrow> 'a \<Rightarrow> real) \<Rightarrow> 'a \<Rightarrow> 'a list \<Rightarrow> 'a list" where
  "insertBy cmp x [] = [x]"
| "insertBy cmp x (y # ys) = (if cmp x y \<le> 0 then x # y # ys else y # insertBy cmp x ys)"

definition arraySort :: "('a \<Rightarrow> 'a \<Rightarrow> real) \<Rightarrow> 'a list \<Rightarrow> 'a list" where
  "arraySort cmp xs = foldr (insertBy cmp) xs []"

definition queryWordsOf :: "string \<Rightarrow> string list" where
  "queryWordsOf normalizedQuery = filter (\<lambda>word. length word > 0) (splitWhitespace normalizedQuery)"

definition searchWithFuzzyMatching :: "buzzword option list \<Rightarrow> string \<Rightarrow> error + result list" where
  "searchWithFuzzyMatching buzzwords query =
     (if query = [] then Inl InvalidQuery
      else (let normalizedQuery = trim (toLowerCase query);
                queryWords = queryWordsOf normalizedQuery
            in if queryWords = [] then Inr []
               else Inr (take 10 (arraySort compareResults
                      (concat (map (scoreEntry normalizedQuery queryWords)
                         (filter (isRelevant normalizedQuery queryWords) buzzwords)))))))"

text \<open>
  The cache of the engine is a \<open>Map\<close> from the lower-cased sanitized query to the results
  stored for it. A \<open>Map\<close> keeps its keys in the order of insertion, so it is modelled as
  a list of pairs with the oldest entry first. \<open>cacheSearchResults\<close> removes the oldest
  entry when the cache holds \<open>maxCacheSize = 100\<close> entries, then sets the key: a new key
  goes to the end, a key that is present keeps its place.
\<close>

type_synonym cache = "(string \<times> result list) list"

definition cacheSearchResults :: "cache \<Rightarrow> string \<Rightarrow> result list \<Rightarrow> cache" where
  "cacheSearchResults searchCache key results =
     (let kept = (if length searchCache \<ge> 100 then tl searchCache else searchCache) in
      if list_ex (\<lambda>entry. fst entry = key) kept
      then map (\<lambda>entry. if fst entry = key then (key, results) else entry) kept
      else kept @ [(key, results)])"

text \<open>
  \<open>performSearch\<close> validates the query, looks the sanitized query up in the cache, searches
  when it is not there, and hands the outcome to the page: the examples view for an empty
  query, a hint for an invalid one, the result list (the no-results view when it is
  empty), the error state when the search throws. The model returns the outcome and the
  cache after the call.
\<close>

datatype outcome = ShowExamples | ShowHint message | ShowResults "result list" | ShowError

definition performSearch :: "buzzword option list \<Rightarrow> cache \<Rightarrow> string \<Rightarrow> outcome \<times> cache" where
  "performSearch buzzwords searchCache query =
     (let validation = validateSearchInput query in
      if message validation = MsgEmpty then (ShowExamples, searchCache)
      else if \<not> valid validation then (ShowHint (message validation), searchCache)
      else (let cacheKey = toLowerCase (sanitized validation) in
            case map_of searchCache cacheKey of
              Some cachedResults \<Rightarrow> (ShowResults cachedResults, searchCache)
            | None \<Rightarrow>
                (case searchWithFuzzyMatching buzzwords (sanitized validation) of
                   Inl e \<Rightarrow> (ShowError, searchCache)
                 | Inr results \<Rightarrow>
                     (ShowResults results, cacheSearchResults searchCache cacheKey results))))"

text \<open>
  \<open>search\<close> is what a call of \<open>performSearch\<close> shows on an engine whose cache is empty.
  Every cache that earlier calls have filled shows the same (\<open>cache_transparent\<close> below),
  so the properties of \<open>search\<close> are properties of every call.
\<close>

definition search :: "buzzword option list \<Rightarrow> string \<Rightarrow> outcome" where
  "search buzzwords query = fst (performSearch buzzwords [] query)"

text \<open>
  A cache is sound for a dictionary when every entry holds the results of the search for
  every non-empty query that lower-cases to its key.
\<close>

definition cacheSound :: "buzzword option list \<Rightarrow> cache \<Rightarrow> bool" where
  "cacheSound buzzwords searchCache =
     (\<forall>key results q. (key, results) \<in> set searchCache \<and> q \<noteq> [] \<and> toLowerCase q = key
        \<longrightarrow> searchWithFuzzyMatching buzzwords q = Inr results)"

section \<open>Loading the dictionary\<close>

definition falsy :: "string option \<Rightarrow> bool" where
  "falsy v = (case v of None \<Rightarrow> True | Some s \<Rightarrow> s = [])"

definition isInvalidBuzzword :: "buzzword option \<Rightarrow> bool" where
  "isInvalidBuzzword entry =
     (case entry of None \<Rightarrow> True | Some b \<Rightarrow> falsy (phrase b) \<or> falsy (translation b))"

datatype loadError = EmptyOrInvalid | TooManyInvalid

text \<open>
  The \<open>DOMContentLoaded\<close> handler and the constructor: the result is the array the
  engine keeps in \<open>this.buzzwords\<close>, or the error thrown.
\<close>

definition loadDictionary :: "buzzword option list \<Rightarrow> loadError + buzzword option list" where
  "loadDictionary buzzwords =
     (if length buzzwords = 0 then Inl EmptyOrInvalid
      else (let invalidBuzzwords = filter isInvalidBuzzword buzzwords in
            if real (length invalidBuzzwords) > real (length buzzwords) * (5 / 10)
            then Inl TooManyInvalid
            else Inr buzzwords))"

section \<open>The search without the pre-filter\<close>

text \<open>
  For comparison with \<open>searchWithFuzzyMatching\<close>: the matcher run over every entry of the
  dictionary, then the same threshold, sort and cut.
\<close>

definition searchEveryEntry :: "buzzword option list \<Rightarrow> string \<Rightarrow> error + result list" where
  "searchEveryEntry buzzwords query =
     (if query = [] then Inl InvalidQuery
      else (let normalizedQuery = trim (toLowerCase query);
                queryWords = queryWordsOf normalizedQuery
            in if queryWords = [] then Inr []
               else Inr (take 10 (arraySort compareResults
                      (concat (map (scoreEntry normalizedQuery queryWords) buzzwords))))))"


section \<open>The keyword rule in the words of the specification\<close>

text \<open>
  For comparison with the loops of \<open>calculateKeywordMatches\<close>: what one keyword
  contributes to one query term, the best contribution over the keywords of an entry, and
  the sum over the query terms.
\<close>

definition contribution :: "string \<Rightarrow> string \<Rightarrow> real" where
  "contribution keyword term =
     (if toLowerCase keyword = term then 1
      else if includesStr (toLowerCase keyword) term then 8 / 10
      else if includesStr term (toLowerCase keyword) then 7 / 10
      else if calculateFuzzyMatch (toLowerCase keyword) term > 6 / 10
        then calculateFuzzyMatch (toLowerCase keyword) term * (5 / 10)
      else 0)"



section \<open>The ranking in the words of the specification\<close>

text \<open>
  Two scores are tied when they differ by at most 0.01. \<open>rankedBefore a b\<close> says that
  \<open>a\<close> may stand before \<open>b\<close>: the higher score first; among tied scores an exact match
  before any other, then a phrase-contains match before any other, then the phrase that is
  not longer.
\<close>

definition tied :: "result \<Rightarrow> result \<Rightarrow> bool" where
  "tied a b = (\<bar>relevanceScore a - relevanceScore b\<bar> \<le> 1 / 100)"


text \<open>Whether an entry carries the phrase \<open>p\<close>, compared lower-cased.\<close>

definition samePhrase :: "string \<Rightarrow> buzzword option \<Rightarrow> bool" where
  "samePhrase p entry =
     (case entry of
        None \<Rightarrow> False
      | Some b \<Rightarrow> (case phrase b of None \<Rightarrow> False | Some p' \<Rightarrow> toLowerCase p' = toLowerCase p))"

text \<open>The result record for an entry with a given score, matched keywords and type.\<close>

definition resultFor :: "buzzword \<Rightarrow> real \<Rightarrow> string list \<Rightarrow> matchType \<Rightarrow> result" where
  "resultFor b s ks t =
     \<lparr>match = (case phrase b of None \<Rightarrow> [] | Some p \<Rightarrow> p), resTranslation = translation b,
      relevanceScore = s, matchedKeywords = ks, resCategory = category b, resUsage = usage b,
      resAlternatives = alternatives b, resMultipleMeanings = multipleMeanings b, matchType = t\<rparr>"


section \<open>Example entries\<close>

text \<open>The entry for \<open>synergy\<close> of the dictionary.\<close>

definition synergyEntry :: buzzword where
  "synergyEntry = \<lparr>phrase = Some ''synergy'', translation = Some ''working together effectively'',
     keywordList = Some [''synergy'', ''together'', ''collaboration'', ''teamwork''],
     category = Some ''collaboration'',
     usage = Some ''The idea that combined efforts produce better results than individual work'',
     alternatives = Some [''collaboration'', ''teamwork''], multipleMeanings = None\<rparr>"



definition kpiEntry :: buzzword where
  "kpiEntry = \<lparr>phrase = Some ''key performance indicator'',
     translation = Some ''metric used to measure success'',
     keywordList = Some [''key'', ''performance'', ''indicator'', ''kpi'', ''metric'', ''measure''],
     category = Some ''metrics'',
     usage = Some ''A measurable value that demonstrates how effectively objectives are achieved'',
     alternatives = Some [''success metric'', ''performance measure''], multipleMeanings = None\<rparr>"

definition offlineEntry :: buzzword where
  "offlineEntry = \<lparr>phrase = Some ''let's take this offline'',
     translation = Some ''discuss this privately or later'',
     keywordList = Some [''take'', ''offline'', ''private'', ''later'', ''separate''],
     category = Some ''communication'',
     usage = Some ''Moving a conversation away from a group setting'',
     alternatives = Some [''discuss privately'', ''talk separately''], multipleMeanings = None\<rparr>"

definition keyStakeholderEntry :: buzzword where
  "keyStakeholderEntry = \<lparr>phrase = Some ''key stakeholder'',
     translation = Some ''important person affected by decisions'',
     keywordList = Some [''key'', ''stakeholder'', ''important'', ''affected''],
     category = Some ''people'',
     usage = Some ''Someone who has significant interest or influence in a project'',
     alternatives = Some [''important person'', ''key player''], multipleMeanings = None\<rparr>"



text \<open>
  Two entries that are not in the dictionary: one without a translation, and one for
  \<open>Synergy\<close> whose only keyword is the misspelling \<open>synergyy\<close>.
\<close>

definition untranslatedEntry :: buzzword where
  "untranslatedEntry = \<lparr>phrase = Some ''synergy map'', translation = None,
     keywordList = Some [''synergy'', ''map''], category = None, usage = None,
     alternatives = None, multipleMeanings = None\<rparr>"

definition typoKeywordEntry :: buzzword where
  "typoKeywordEntry = \<lparr>phrase = Some ''Synergy'', translation = Some ''working together effectively'',
     keywordList = Some [''synergyy''], category = None, usage = None,
     alternatives = None, multipleMeanings = None\<rparr>"


section \<open>The search on an empty cache\<close>

lemma search_unfold:
  "search buzzwords query =
     (let validation = validateSearchInput query in
      if message validation = MsgEmpty then ShowExamples
      else if \<not> valid validation then ShowHint (message validation)
      else (case searchWithFuzzyMatching buzzwords (sanitized validation) of
              Inl e \<Rightarrow> ShowError
            | Inr results \<Rightarrow> ShowResults results))"
  by (simp add: search_def performSearch_def Let_def split: sum.splits)

section \<open>Properties of sanitization and validation\<close>

lemma letter_plain: "isLetter c \<Longrightarrow> \<not> isMarkup c \<and> \<not> isWhitespace c \<and> \<not> isControl c"
  by (auto simp: isLetter_def isMarkup_def isWhitespace_def isControl_def)

lemma collapseWhitespace_id: "list_all (\<lambda>c. \<not> isWhitespace c) s \<Longrightarrow> collapseWhitespace s = s"
  by (induction s) auto

lemma dropWhile_hd: "s = [] \<or> \<not> P (hd s) \<Longrightarrow> dropWhile P s = s"
  by (cases s) auto

lemma trim_noop: "s = [] \<or> (\<not> isWhitespace (hd s) \<and> \<not> isWhitespace (last s)) \<Longrightarrow> trim s = s"
proof -
  assume a: "s = [] \<or> (\<not> isWhitespace (hd s) \<and> \<not> isWhitespace (last s))"
  then have 1: "dropWhile isWhitespace s = s"
    by (intro dropWhile_hd) auto
  from a have 2: "dropWhile isWhitespace (rev s) = rev s"
    by (intro dropWhile_hd) (auto simp: hd_rev)
  show ?thesis by (simp add: trim_def 1 2)
qed

lemma trim_id: "list_all (\<lambda>c. \<not> isWhitespace c) s \<Longrightarrow> trim s = s"
  by (rule trim_noop) (cases s, auto simp: list_all_iff)

lemma sanitizeInput_letters: "list_all isLetter q \<Longrightarrow> sanitizeInput q = q"
proof -
  assume a: "list_all isLetter q"
  then have m: "filter (\<lambda>c. \<not> isMarkup c) q = q"
    and w: "list_all (\<lambda>c. \<not> isWhitespace c) q"
    and c: "filter (\<lambda>c. \<not> isControl c) q = q"
    by (auto simp: list_all_iff letter_plain intro: filter_True)
  show ?thesis
    by (simp add: sanitizeInput_def m collapseWhitespace_id [OF w] c trim_id [OF w])
qed

lemma sanitize_empty: "sanitizeInput [] = []"
  by (simp add: sanitizeInput_def trim_def)

lemma sanitize_a: "sanitizeInput ''a'' = ''a''"
  by (simp add: sanitizeInput_def trim_def isMarkup_def isControl_def isWhitespace_def code_def)

lemma sanitize_123: "sanitizeInput ''123'' = ''123''"
  by (simp add: sanitizeInput_def trim_def isMarkup_def isControl_def isWhitespace_def code_def)

text \<open>
  Claim C6. The empty query gives the examples view, which is not the view of a search
  without matches; \<open>a\<close> is refused as too short, \<open>123\<close> as having no letter, and every
  query of 101 letters as too long. Each is a value of \<open>outcome\<close> with its own reason,
  and the three reasons differ.
\<close>

theorem C6_validation_outcomes:
  "search d [] = ShowExamples \<and> ShowExamples \<noteq> ShowResults []
   \<and> search d ''a'' = ShowHint MsgTooShort
   \<and> search d ''123'' = ShowHint MsgInvalidCharacters
   \<and> (\<forall>q. length q = 101 \<and> list_all isLetter q \<longrightarrow> search d q = ShowHint MsgTooLong)
   \<and> distinct [MsgTooShort, MsgTooLong, MsgInvalidCharacters]"
proof -
  have e: "search d [] = ShowExamples"
    by (simp add: search_unfold validateSearchInput_def sanitize_empty)
  have a: "search d ''a'' = ShowHint MsgTooShort"
    by (simp add: search_unfold validateSearchInput_def sanitize_a)
  have n: "search d ''123'' = ShowHint MsgInvalidCharacters"
    by (simp add: search_unfold validateSearchInput_def sanitize_123 isLetter_def code_def)
  have l: "search d q = ShowHint MsgTooLong" if "length q = 101" "list_all isLetter q" for q
    using that by (auto simp: search_unfold validateSearchInput_def sanitizeInput_letters)
  show ?thesis using e a n l by simp
qed

theorem C6_validation_outcomes_witness:
  "length (replicate 101 CHR ''a'') = 101 \<and> list_all isLetter (replicate 101 CHR ''a'')
   \<and> search [] (replicate 101 CHR ''a'') = ShowHint MsgTooLong"
proof -
  have h: "length (replicate 101 CHR ''a'') = 101 \<and> list_all isLetter (replicate 101 CHR ''a'')"
    by (simp add: list_all_iff isLetter_def code_def)
  with C6_validation_outcomes [of "[]"] show ?thesis by blast
qed

text \<open>
  Claim C10. The checks run on the sanitized query in the order too short, too long, no
  letter: a sanitized query of length 1 is too short and one longer than 100 is too long,
  with or without a letter, and the reason \<open>MsgInvalidCharacters\<close> is given exactly
  to the sanitized queries of length 2 to 100 without a letter.
\<close>

theorem C10_validation_precedence:
  "(length (sanitizeInput q) = 1 \<longrightarrow>
      validateSearchInput q = \<lparr>valid = False, sanitized = sanitizeInput q, message = MsgTooShort\<rparr>
      \<and> search d q = ShowHint MsgTooShort)
   \<and> (length (sanitizeInput q) > 100 \<longrightarrow>
      validateSearchInput q = \<lparr>valid = False, sanitized = sanitizeInput q, message = MsgTooLong\<rparr>
      \<and> search d q = ShowHint MsgTooLong)
   \<and> (message (validateSearchInput q) = MsgInvalidCharacters \<longleftrightarrow>
        2 \<le> length (sanitizeInput q) \<and> length (sanitizeInput q) \<le> 100
        \<and> \<not> list_ex isLetter (sanitizeInput q))"
  by (auto simp: validateSearchInput_def search_unfold Let_def)

lemma sanitize_digit: "sanitizeInput (replicate n CHR ''1'') = replicate n CHR ''1''"
proof -
  have w: "list_all (\<lambda>c. \<not> isWhitespace c) (replicate n CHR ''1'')"
    by (simp add: list_all_iff isWhitespace_def code_def)
  have m: "filter (\<lambda>c. \<not> isMarkup c) (replicate n CHR ''1'') = replicate n CHR ''1''"
    by (simp add: isMarkup_def code_def)
  have c: "filter (\<lambda>c. \<not> isControl c) (replicate n CHR ''1'') = replicate n CHR ''1''"
    by (simp add: isControl_def code_def)
  show ?thesis
    by (simp add: sanitizeInput_def m collapseWhitespace_id [OF w] c trim_id [OF w])
qed

theorem C10_validation_precedence_witness:
  "length (sanitizeInput ''1'') = 1 \<and> \<not> list_ex isLetter (sanitizeInput ''1'')
   \<and> search [] ''1'' = ShowHint MsgTooShort
   \<and> length (sanitizeInput (replicate 101 CHR ''1'')) > 100
   \<and> \<not> list_ex isLetter (sanitizeInput (replicate 101 CHR ''1''))
   \<and> search [] (replicate 101 CHR ''1'') = ShowHint MsgTooLong
   \<and> 2 \<le> length (sanitizeInput ''12'') \<and> length (sanitizeInput ''12'') \<le> 100
   \<and> \<not> list_ex isLetter (sanitizeInput ''12'')
   \<and> message (validateSearchInput ''12'') = MsgInvalidCharacters"
proof -
  have s1: "sanitizeInput ''1'' = ''1''" using sanitize_digit [of 1] by simp
  have s2: "sanitizeInput ''12'' = ''12''"
    by (simp add: sanitizeInput_def trim_def isMarkup_def isControl_def isWhitespace_def code_def)
  have nl: "\<not> list_ex isLetter (replicate n CHR ''1'')" for n
    by (simp add: list_ex_iff isLetter_def code_def)
  have n2: "\<not> list_ex isLetter ''12''"
    by (simp add: isLetter_def code_def)
  show ?thesis
    using C10_validation_precedence [of "''1''" "[]"]
      C10_validation_precedence [of "replicate 101 CHR ''1''" "[]"]
      C10_validation_precedence [of "''12''" "[]"] nl [of 1] nl [of 101] n2
    by (simp add: s1 s2 sanitize_digit)
qed


section \<open>Properties of the edit distance\<close>

lemma cell_Nil [simp]: "cell [] ys = length ys"
  by (cases ys) auto

lemma map_prefixes: "map f (prefixes t) = f [] # map f (tl (prefixes t))"
  by (cases t) simp_all

lemma map_tl_prefixes_Cons: "map f (tl (prefixes (a # t))) = map (\<lambda>p. f (a # p)) (prefixes t)"
  by (simp add: comp_def)

lemma fillRow_prefixes:
  "fillRow c t (map (\<lambda>p. cell (rev (q @ p)) ry) (prefixes t)) (cell (rev q) (c # ry))
   = map (\<lambda>p. cell (rev (q @ p)) (c # ry)) (tl (prefixes t))"
proof (induction t arbitrary: q)
  case Nil
  show ?case by simp
next
  case (Cons a t)
  let ?F = "\<lambda>p. cell (rev ((q @ [a]) @ p)) ry"
  let ?G = "\<lambda>p. cell (rev ((q @ [a]) @ p)) (c # ry)"
  have pre: "map (\<lambda>p. cell (rev (q @ p)) ry) (prefixes (a # t))
      = cell (rev q) ry # map ?F (prefixes t)"
    by (simp add: comp_def)
  have pre2: "map ?F (prefixes t) = cell (a # rev q) ry # map ?F (tl (prefixes t))"
    using map_prefixes [of ?F t] by simp
  have v: "(if c = a then cell (rev q) ry
            else min (cell (rev q) ry + 1) (min (cell (rev q) (c # ry) + 1) (cell (a # rev q) ry + 1)))
           = cell (rev (q @ [a])) (c # ry)"
    by simp
  have "fillRow c (a # t) (map (\<lambda>p. cell (rev (q @ p)) ry) (prefixes (a # t))) (cell (rev q) (c # ry))
      = fillRow c (a # t) (cell (rev q) ry # cell (a # rev q) ry # map ?F (tl (prefixes t)))
          (cell (rev q) (c # ry))"
    by (simp only: pre pre2)
  also have "\<dots> = cell (rev (q @ [a])) (c # ry)
        # fillRow c t (cell (a # rev q) ry # map ?F (tl (prefixes t))) (cell (rev (q @ [a])) (c # ry))"
    by (simp only: fillRow.simps Let_def v)
  also have "\<dots> = cell (rev (q @ [a])) (c # ry)
        # fillRow c t (map ?F (prefixes t)) (cell (rev (q @ [a])) (c # ry))"
    by (simp only: pre2)
  also have "\<dots> = cell (rev (q @ [a])) (c # ry) # map ?G (tl (prefixes t))"
    by (simp only: Cons.IH)
  also have "\<dots> = map ?G (prefixes t)"
    using map_prefixes [of ?G t] by simp
  also have "\<dots> = map (\<lambda>p. cell (rev (q @ p)) (c # ry)) (tl (prefixes (a # t)))"
    by (simp add: comp_def)
  finally show ?case .
qed

lemma nextRow_prefixes:
  "Suc (length ry) # fillRow c s (map (\<lambda>p. cell (rev p) ry) (prefixes s)) (Suc (length ry))
   = map (\<lambda>p. cell (rev p) (c # ry)) (prefixes s)"
proof -
  have "fillRow c s (map (\<lambda>p. cell (rev ([] @ p)) ry) (prefixes s)) (cell (rev []) (c # ry))
      = map (\<lambda>p. cell (rev ([] @ p)) (c # ry)) (tl (prefixes s))"
    by (rule fillRow_prefixes)
  then have "fillRow c s (map (\<lambda>p. cell (rev p) ry) (prefixes s)) (Suc (length ry))
      = map (\<lambda>p. cell (rev p) (c # ry)) (tl (prefixes s))"
    by simp
  then show ?thesis
    using map_prefixes [of "\<lambda>p. cell (rev p) (c # ry)" s] by simp
qed

lemma fillRows_prefixes:
  "fillRows s t (map (\<lambda>p. cell (rev p) ry) (prefixes s)) (Suc (length ry))
   = map (\<lambda>p. cell (rev p) (rev t @ ry)) (prefixes s)"
proof (induction t arbitrary: ry)
  case Nil
  show ?case by simp
next
  case (Cons c t)
  show ?case
    using Cons.IH [of "c # ry"] nextRow_prefixes [of ry c s] by simp
qed

lemma map_length_prefixes: "map length (prefixes s) = [0..<Suc (length s)]"
proof (induction s)
  case Nil
  show ?case by simp
next
  case (Cons a s)
  have "map length (prefixes (a # s)) = 0 # map Suc (map length (prefixes s))"
    by (simp add: comp_def)
  also have "\<dots> = 0 # map Suc [0..<Suc (length s)]"
    by (simp only: Cons.IH)
  also have "\<dots> = [0..<Suc (length (a # s))]"
    by (simp only: map_Suc_upt length_Cons) (simp add: upt_rec)
  finally show ?case .
qed

lemma levenshteinDistance_cell: "levenshteinDistance s t = cell (rev s) (rev t)"
proof -
  have ne: "prefixes s \<noteq> []" by (cases s) auto
  have "[0..<Suc (length s)] = map (\<lambda>p. cell (rev p) []) (prefixes s)"
    using map_length_prefixes [of s] by (simp add: comp_def)
  then have "fillRows s t [0..<Suc (length s)] 1
      = fillRows s t (map (\<lambda>p. cell (rev p) []) (prefixes s)) (Suc (length ([]::string)))"
    by (simp only: list.size One_nat_def)
  also have "\<dots> = map (\<lambda>p. cell (rev p) (rev t @ [])) (prefixes s)"
    by (rule fillRows_prefixes)
  finally have "levenshteinDistance s t = last (map (\<lambda>p. cell (rev p) (rev t)) (prefixes s))"
    by (simp add: levenshteinDistance_def)
  then show ?thesis using ne by (simp add: last_map)
qed

lemma cell_same: "cell x x = 0"
  by (induction x) auto

lemma cell_sym: "cell x y = cell y x"
  by (induction x y rule: cell.induct) (auto simp: min.commute min.left_commute)

lemma cell_step:
  "cell xs ys \<le> cell (a # xs) ys + 1 \<and> cell (a # xs) ys \<le> cell xs ys + 1
   \<and> cell xs ys \<le> cell xs (c # ys) + 1 \<and> cell xs (c # ys) \<le> cell xs ys + 1"
proof (induction "length xs + length ys" arbitrary: xs ys a c rule: less_induct)
  case less
  have row: "cell xs ys \<le> cell (a # xs) ys + 1 \<and> cell (a # xs) ys \<le> cell xs ys + 1"
  proof (cases ys)
    case Nil
    then show ?thesis by simp
  next
    case (Cons c' ys')
    have "length xs + length ys' < length xs + length ys" using Cons by simp
    from less [OF this, of a c'] show ?thesis
      unfolding Cons by (auto simp: min_def)
  qed
  have col: "cell xs ys \<le> cell xs (c # ys) + 1 \<and> cell xs (c # ys) \<le> cell xs ys + 1"
  proof (cases xs)
    case Nil
    then show ?thesis by simp
  next
    case (Cons a' xs')
    have "length xs' + length ys < length xs + length ys" using Cons by simp
    from less [OF this, of a' c] show ?thesis
      unfolding Cons by (auto simp: min_def)
  qed
  from row col show ?case by simp
qed

lemma cell_classic: "cell xs ys = classicLevenshtein xs ys"
proof (induction xs ys rule: classicLevenshtein.induct)
  case (1 xs)
  show ?case by simp
next
  case (2 c ys)
  show ?case by simp
next
  case (3 a xs c ys)
  show ?case
  proof (cases "c = a")
    case True
    have "cell (a # xs) (c # ys) = cell xs ys" using True by simp
    moreover have "cell xs ys \<le> cell xs (c # ys) + 1" "cell xs ys \<le> cell (a # xs) ys + 1"
      using cell_step [of xs ys a c] by simp_all
    ultimately show ?thesis using 3 True by (simp add: min_def)
  next
    case False
    with 3 show ?thesis by simp
  qed
qed

text \<open>
  The classic recurrence gives the same number for the reversed strings: it satisfies at
  the last characters the equation that defines it at the first.
\<close>

lemma classic_Nil [simp]: "classicLevenshtein [] ys = length ys"
  by (cases ys) auto

lemma min_nine:
  fixes a b c e f g h i j d1 d2 :: nat
  shows "min (min (a + d2) (min (b + 1) (c + 1)) + d1)
           (min (min (e + d2) (min (f + 1) (g + 1)) + 1) (min (h + d2) (min (i + 1) (j + 1)) + 1))
       = min (min (a + d1) (min (e + 1) (h + 1)) + d2)
           (min (min (b + d1) (min (f + 1) (i + 1)) + 1) (min (c + d1) (min (g + 1) (j + 1)) + 1))"
  by (simp only: min_add_distrib_left min_add_distrib_right min.assoc min.commute
      min.left_commute add.assoc add.commute add.left_commute)

lemma classic_snoc:
  "classicLevenshtein (xs @ [a]) (ys @ [c]) =
     min (classicLevenshtein xs ys + (if c = a then 0 else 1))
       (min (classicLevenshtein xs (ys @ [c]) + 1) (classicLevenshtein (xs @ [a]) ys + 1))"
proof (induction "length xs + length ys" arbitrary: xs ys rule: less_induct)
  case less
  show ?case
  proof (cases xs)
    case Nil
    note xs = this
    show ?thesis
    proof (cases ys)
      case Nil
      with xs show ?thesis by simp
    next
      case (Cons y ys')
      have "length ([]::string) + length ys' < length xs + length ys" using xs Cons by simp
      from less [OF this] have IH: "classicLevenshtein [a] (ys' @ [c]) =
          min (length ys' + (if c = a then 0 else 1))
            (min (length ys' + 1 + 1) (classicLevenshtein [a] ys' + 1))"
        by simp
      show ?thesis
        unfolding xs Cons
        by (simp add: IH min_add_distrib_left min.assoc min.commute min.left_commute)
    qed
  next
    case (Cons x xs')
    note xs = this
    show ?thesis
    proof (cases ys)
      case Nil
      have "length xs' + length ([]::string) < length xs + length ys" using xs Nil by simp
      from less [OF this] have IH: "classicLevenshtein (xs' @ [a]) [c] =
          min (length xs' + (if c = a then 0 else 1))
            (min (classicLevenshtein xs' [c] + 1) (length xs' + 1 + 1))"
        by simp
      show ?thesis
        unfolding xs Nil
        by (simp add: IH min_add_distrib_left min.assoc min.commute min.left_commute)
    next
      case (Cons y ys')
      let ?d1 = "if y = x then 0 else 1 :: nat"
      let ?d2 = "if c = a then 0 else 1 :: nat"
      let ?L = classicLevenshtein
      have l1: "length xs' + length ys' < length xs + length ys"
        and l2: "length xs' + length (y # ys') < length xs + length ys"
        and l3: "length (x # xs') + length ys' < length xs + length ys"
        using xs Cons by simp_all
      have A: "?L (xs' @ [a]) (ys' @ [c]) =
          min (?L xs' ys' + ?d2) (min (?L xs' (ys' @ [c]) + 1) (?L (xs' @ [a]) ys' + 1))"
        by (rule less [OF l1])
      have B: "?L (xs' @ [a]) (y # ys' @ [c]) =
          min (?L xs' (y # ys') + ?d2) (min (?L xs' (y # ys' @ [c]) + 1) (?L (xs' @ [a]) (y # ys') + 1))"
        using less [OF l2] by simp
      have C: "?L (x # xs' @ [a]) (ys' @ [c]) =
          min (?L (x # xs') ys' + ?d2) (min (?L (x # xs') (ys' @ [c]) + 1) (?L (x # xs' @ [a]) ys' + 1))"
        using less [OF l3] by simp
      have lhs: "?L ((x # xs') @ [a]) ((y # ys') @ [c]) =
          min (?L (xs' @ [a]) (ys' @ [c]) + ?d1)
            (min (?L (xs' @ [a]) (y # ys' @ [c]) + 1) (?L (x # xs' @ [a]) (ys' @ [c]) + 1))"
        by simp
      have r1: "?L (x # xs') (y # ys') =
          min (?L xs' ys' + ?d1) (min (?L xs' (y # ys') + 1) (?L (x # xs') ys' + 1))"
        by simp
      have r2: "?L (x # xs') ((y # ys') @ [c]) =
          min (?L xs' (ys' @ [c]) + ?d1) (min (?L xs' (y # ys' @ [c]) + 1) (?L (x # xs') (ys' @ [c]) + 1))"
        by simp
      have r3: "?L ((x # xs') @ [a]) (y # ys') =
          min (?L (xs' @ [a]) ys' + ?d1) (min (?L (xs' @ [a]) (y # ys') + 1) (?L (x # xs' @ [a]) ys' + 1))"
        by simp
      show ?thesis
        unfolding xs Cons lhs A B C r1 r2 r3 by (rule min_nine)
    qed
  qed
qed

lemma classic_rev: "classicLevenshtein (rev xs) (rev ys) = classicLevenshtein xs ys"
proof (induction xs ys rule: classicLevenshtein.induct)
  case (1 xs)
  show ?case by simp
next
  case (2 c ys)
  show ?case by simp
next
  case (3 a xs c ys)
  have "classicLevenshtein (rev (a # xs)) (rev (c # ys))
      = classicLevenshtein (rev xs @ [a]) (rev ys @ [c])" by simp
  also have "\<dots> = min (classicLevenshtein (rev xs) (rev ys) + (if c = a then 0 else 1))
       (min (classicLevenshtein (rev xs) (rev ys @ [c]) + 1)
            (classicLevenshtein (rev xs @ [a]) (rev ys) + 1))"
    by (rule classic_snoc)
  also have "\<dots> = min (classicLevenshtein xs ys + (if c = a then 0 else 1))
       (min (classicLevenshtein xs (c # ys) + 1) (classicLevenshtein (a # xs) ys + 1))"
    using 3 by simp
  also have "\<dots> = classicLevenshtein (a # xs) (c # ys)" by simp
  finally show ?case .
qed

text \<open>
  Claim C9. The distance between \<open>kitten\<close> and \<open>sitting\<close> is 3, the distance of a
  string to itself is 0, the distance is symmetric, and the matrix computes the classic
  unit-cost recurrence.
\<close>

theorem C9_levenshtein:
  "levenshteinDistance ''kitten'' ''sitting'' = 3
   \<and> (\<forall>x. levenshteinDistance x x = 0)
   \<and> (\<forall>x y. levenshteinDistance x y = levenshteinDistance y x)
   \<and> (\<forall>x y. levenshteinDistance x y = classicLevenshtein x y)"
proof -
  have k: "levenshteinDistance ''kitten'' ''sitting'' = 3"
    by code_simp
  have i: "levenshteinDistance x x = 0" for x
    by (simp add: levenshteinDistance_cell cell_same)
  have s: "levenshteinDistance x y = levenshteinDistance y x" for x y
    unfolding levenshteinDistance_cell by (rule cell_sym)
  have c: "levenshteinDistance x y = classicLevenshtein x y" for x y
    by (simp only: levenshteinDistance_cell cell_classic classic_rev)
  show ?thesis
    using k i s c by blast
qed

section \<open>Properties of the keyword rule\<close>

lemma contribution_nonneg: "0 \<le> contribution k t"
  by (simp add: contribution_def)
















section \<open>Properties of the ranking\<close>

lemma compareResults_far:
  "\<not> tied a b \<Longrightarrow> compareResults a b = relevanceScore b - relevanceScore a"
proof -
  assume "\<not> tied a b"
  then have "\<bar>relevanceScore b - relevanceScore a\<bar> > 1 / 100"
    unfolding tied_def by linarith
  then show ?thesis
    unfolding compareResults_def Let_def by (simp only: if_True)
qed

lemma compareResults_tied:
  "tied a b \<Longrightarrow> compareResults a b =
     (if matchType a = Exact \<and> matchType b \<noteq> Exact then - 1
      else if matchType b = Exact \<and> matchType a \<noteq> Exact then 1
      else if matchType a = PhraseContains \<and> matchType b \<noteq> PhraseContains then - 1
      else if matchType b = PhraseContains \<and> matchType a \<noteq> PhraseContains then 1
      else real (length (match a)) - real (length (match b)))"
proof -
  assume "tied a b"
  then have "\<not> \<bar>relevanceScore b - relevanceScore a\<bar> > 1 / 100"
    unfolding tied_def by linarith
  then show ?thesis
    unfolding compareResults_def Let_def by (simp only: if_False)
qed





lemma set_insertBy: "set (insertBy cmp x ys) = insert x (set ys)"
  by (induction ys) auto

lemma length_insertBy: "length (insertBy cmp x ys) = Suc (length ys)"
  by (induction ys) auto

lemma set_arraySort: "set (arraySort cmp xs) = set xs"
  unfolding arraySort_def by (induction xs) (auto simp: set_insertBy)

lemma length_arraySort: "length (arraySort cmp xs) = length xs"
  unfolding arraySort_def by (induction xs) (auto simp: length_insertBy)





lemma valid_nonempty: "message (validateSearchInput q) = MsgValid \<Longrightarrow> sanitizeInput q \<noteq> []"
  by (auto simp: validateSearchInput_def Let_def split: if_splits)

lemma search_valid:
  "message (validateSearchInput q) = MsgValid \<Longrightarrow>
   search d q = (case searchWithFuzzyMatching d (sanitizeInput q) of
                          Inl e \<Rightarrow> ShowError | Inr rs \<Rightarrow> ShowResults rs)"
  by (auto simp: search_unfold validateSearchInput_def Let_def split: if_splits)








section \<open>Properties of the search for a phrase of the dictionary\<close>

lemma code_setBit5: "isUpper c \<Longrightarrow> code (setBit5 c) = code c + 32"
proof (cases c)
  case (Char b0 b1 b2 b3 b4 b5 b6 b7)
  assume "isUpper c"
  then show ?thesis
    unfolding Char
    by (cases b5; cases b6; cases b7; cases b0; cases b1; cases b2; cases b3; cases b4)
       (simp_all add: isUpper_def code_def)
qed

lemma isWhitespace_lowerChar: "isWhitespace (lowerChar c) = isWhitespace c"
proof (cases "isUpper c")
  case True
  then have "code (lowerChar c) = code c + 32" by (simp add: lowerChar_def code_setBit5)
  with True show ?thesis by (auto simp: isWhitespace_def isUpper_def)
next
  case False
  then show ?thesis by (simp add: lowerChar_def)
qed

lemma dropWhile_toLowerCase:
  "dropWhile isWhitespace (toLowerCase s) = toLowerCase (dropWhile isWhitespace s)"
  by (induction s) (simp_all add: toLowerCase_def isWhitespace_lowerChar)

lemma trim_toLowerCase: "trim (toLowerCase s) = toLowerCase (trim s)"
proof -
  have r: "rev (toLowerCase s) = toLowerCase (rev s)" for s
    by (simp add: toLowerCase_def rev_map)
  show ?thesis
    by (simp only: trim_def dropWhile_toLowerCase r)
qed

lemma last_dropWhile: "dropWhile P xs \<noteq> [] \<Longrightarrow> last (dropWhile P xs) = last xs"
  by (induction xs) (auto split: if_splits)

lemma trim_ends:
  "trim s = [] \<or> \<not> isWhitespace (hd (trim s)) \<and> \<not> isWhitespace (last (trim s))"
proof (cases "trim s = []")
  case True
  then show ?thesis by simp
next
  case False
  let ?t = "dropWhile isWhitespace s"
  let ?u = "dropWhile isWhitespace (rev ?t)"
  from False have u: "?u \<noteq> []" by (simp add: trim_def)
  have t: "?t \<noteq> []"
  proof
    assume "?t = []"
    then have "?u = []" by (simp only: rev.simps(1) dropWhile.simps(1))
    with u show False by blast
  qed
  have "last (trim s) = hd ?u" using u by (simp add: trim_def last_rev)
  moreover have "\<not> isWhitespace (hd ?u)" using u by (rule hd_dropWhile)
  moreover have "hd (trim s) = last ?u" using u by (simp add: trim_def hd_rev)
  moreover have "last ?u = last (rev ?t)" using u by (rule last_dropWhile)
  moreover have "last (rev ?t) = hd ?t" using t by (simp add: last_rev)
  moreover have "\<not> isWhitespace (hd ?t)" using t by (rule hd_dropWhile)
  ultimately show ?thesis by simp
qed

lemma trim_trim: "trim (trim s) = trim s"
  by (rule trim_noop) (rule trim_ends)

lemma sanitizeInput_trimmed: "trim (sanitizeInput q) = sanitizeInput q"
  unfolding sanitizeInput_def by (rule trim_trim)

lemma includesStr_refl: "includesStr s s"
  by (cases s) simp_all

lemma splitFrom_word:
  "cur \<noteq> [] \<or> list_ex (\<lambda>c. \<not> isWhitespace c) s \<Longrightarrow> list_ex (\<lambda>w. length w > 0) (splitFrom cur s)"
proof (induction cur s rule: splitFrom.induct)
  case (1 cur)
  then show ?case by simp
next
  case (2 cur c s)
  show ?case
  proof (cases "isWhitespace c")
    case True
    show ?thesis
    proof (cases "cur = []")
      case True
      with 2(3) \<open>isWhitespace c\<close> have "list_ex (\<lambda>c. \<not> isWhitespace c) s" by simp
      then have "list_ex (\<lambda>c. \<not> isWhitespace c) (dropWhile isWhitespace s)"
        by (induction s) auto
      with 2(1) [OF \<open>isWhitespace c\<close>] \<open>isWhitespace c\<close> show ?thesis by simp
    next
      case False
      with \<open>isWhitespace c\<close> show ?thesis by simp
    qed
  next
    case False
    with 2(2) [OF False] show ?thesis by simp
  qed
qed

lemma queryWordsOf_nonempty: "list_ex (\<lambda>c. \<not> isWhitespace c) s \<Longrightarrow> queryWordsOf s \<noteq> []"
proof -
  assume "list_ex (\<lambda>c. \<not> isWhitespace c) s"
  then have "list_ex (\<lambda>w. length w > 0) (splitFrom [] s)"
    by (intro splitFrom_word) simp
  then show ?thesis
    by (auto simp: queryWordsOf_def splitWhitespace_def list_ex_iff filter_empty_conv)
qed

lemma calculateFuzzyMatch_le: "calculateFuzzyMatch s t \<le> 1"
  by (simp add: calculateFuzzyMatch_def Let_def)

lemma capped: "(if c then min (85 / 100) x else 0) \<le> (85 / 100 :: real)"
proof (cases c)
  case True
  have "min (85 / 100) x \<le> (85 / 100 :: real)" by (rule min.cobounded1)
  with True show ?thesis by (simp only: if_True)
next
  case False
  have "(0::real) \<le> 85 / 100" by simp
  with False show ?thesis by (simp only: if_False)
qed

lemma calculateKeywordMatches_le:
  assumes "calculateKeywordMatches b ws = Inr km"
  shows "score km \<le> 85 / 100"
proof (cases "keywordList b")
  case None
  with assms have "km = \<lparr>score = 0, matches = []\<rparr>"
    by (simp add: calculateKeywordMatches_def split: if_splits)
  then show ?thesis by simp
next
  case (Some ks)
  define t where "t = fst (foldl (wordStep ks) (0, []) ws)"
  define x where "x = 4 / 10 + t / real (max (length ws) (length ks)) * (45 / 100)"
  from assms Some have "score km = (if t > 0 then min (85 / 100) x else 0)"
    unfolding calculateKeywordMatches_def Let_def t_def x_def by auto
  then show ?thesis by (simp only: capped)
qed

lemma scoreRules_cases:
  assumes "scoreRules b ph nq ws = Inr st"
  shows "(st = (1, [nq], Exact) \<and> ph = nq)
       \<or> (snd (snd st) \<noteq> Exact \<and> fst st \<le> 95 / 100)"
proof (cases "ph = nq")
  case True
  with assms show ?thesis by (simp add: scoreRules_def)
next
  case False
  note ne = this
  show ?thesis
  proof (cases "includesStr ph nq \<or> includesStr nq ph")
    case True
    with assms ne show ?thesis by (auto simp: scoreRules_def split: if_splits)
  next
    case False
    show ?thesis
    proof (cases "calculateKeywordMatches b ws")
      case (Inl e)
      with assms ne False show ?thesis by (simp add: scoreRules_def)
    next
      case (Inr km)
      from calculateKeywordMatches_le [OF Inr] have "score km \<le> 85 / 100" .
      with assms ne False Inr show ?thesis
        by (auto simp: scoreRules_def split: if_splits)
    qed
  qed
qed

lemma fuzzyRule_cases:
  "snd (snd st) \<noteq> Exact \<Longrightarrow> fst st \<le> 95 / 100 \<Longrightarrow>
   snd (snd (fuzzyRule ph nq st)) \<noteq> Exact \<and> fst (fuzzyRule ph nq st) \<le> 95 / 100"
  using calculateFuzzyMatch_le [of ph nq]
  by (auto simp: fuzzyRule_def Let_def)

lemma fuzzyRule_exact: "fuzzyRule ph nq (1, ks, Exact) = (1, ks, Exact)"
  by (simp add: fuzzyRule_def)

lemma calculateRelevanceScore_phrase:
  "calculateRelevanceScore b nq ws = Inr r \<Longrightarrow> phrase b = Some (match r)"
  by (auto simp: calculateRelevanceScore_def Let_def split: option.splits sum.splits)

lemma calculateRelevanceScore_cases:
  assumes "calculateRelevanceScore b nq ws = Inr r"
  shows "(matchType r = Exact \<and> relevanceScore r = 1 \<and> toLowerCase (match r) = nq)
       \<or> (matchType r \<noteq> Exact \<and> relevanceScore r \<le> 95 / 100)"
proof -
  from assms obtain p st where p: "phrase b = Some p"
    and st: "scoreRules b (toLowerCase p) nq ws = Inr st"
    and r: "r = \<lparr>match = p, resTranslation = translation b,
                 relevanceScore = fst (fuzzyRule (toLowerCase p) nq st),
                 matchedKeywords = dedupe (fst (snd (fuzzyRule (toLowerCase p) nq st))),
                 resCategory = category b, resUsage = usage b,
                 resAlternatives = alternatives b, resMultipleMeanings = multipleMeanings b,
                 matchType = snd (snd (fuzzyRule (toLowerCase p) nq st))\<rparr>"
    by (auto simp: calculateRelevanceScore_def Let_def split: option.splits sum.splits)
  from scoreRules_cases [OF st] show ?thesis
  proof
    assume "st = (1, [nq], Exact) \<and> toLowerCase p = nq"
    then show ?thesis by (simp add: r fuzzyRule_exact)
  next
    assume "snd (snd st) \<noteq> Exact \<and> fst st \<le> 95 / 100"
    then have "snd (snd (fuzzyRule (toLowerCase p) nq st)) \<noteq> Exact
        \<and> fst (fuzzyRule (toLowerCase p) nq st) \<le> 95 / 100"
      by (intro fuzzyRule_cases) simp_all
    then show ?thesis by (simp add: r)
  qed
qed

lemma calculateRelevanceScore_exact:
  "phrase e = Some p \<Longrightarrow>
   calculateRelevanceScore e (toLowerCase p) ws = Inr (resultFor e 1 [toLowerCase p] Exact)"
  by (simp add: calculateRelevanceScore_def scoreRules_def fuzzyRule_exact resultFor_def dedupe_def)

lemma scoreEntry_exact:
  "phrase e = Some p \<Longrightarrow>
   scoreEntry (toLowerCase p) ws (Some e) = [resultFor e 1 [toLowerCase p] Exact]"
  by (simp add: scoreEntry_def calculateRelevanceScore_exact resultFor_def)

lemma isRelevant_exact:
  "phrase e = Some p \<Longrightarrow> p \<noteq> [] \<Longrightarrow> isRelevant (toLowerCase p) ws (Some e)"
  by (simp add: isRelevant_def includesStr_refl)

lemma scoreEntry_cases:
  assumes "r \<in> set (scoreEntry nq ws entry)"
  shows "\<exists>b. entry = Some b \<and> calculateRelevanceScore b nq ws = Inr r"
  using assms by (auto simp: scoreEntry_def split: option.splits sum.splits if_splits)

lemma scoreEntry_length: "length (scoreEntry nq ws entry) \<le> 1"
  by (auto simp: scoreEntry_def split: option.splits sum.splits)

lemma insertBy_front: "ys = [] \<or> cmp x (hd ys) \<le> 0 \<Longrightarrow> insertBy cmp x ys = x # ys"
  by (cases ys) auto

lemma insertBy_past:
  "(\<And>y. y \<in> set es \<Longrightarrow> \<not> cmp x y \<le> 0) \<Longrightarrow> insertBy cmp x (es @ os) = es @ insertBy cmp x os"
  by (induction es) auto

lemma arraySort_partition:
  assumes top: "\<And>x y. x \<in> set xs \<Longrightarrow> y \<in> set xs \<Longrightarrow> P x \<Longrightarrow> cmp x y \<le> 0"
    and low: "\<And>x y. x \<in> set xs \<Longrightarrow> y \<in> set xs \<Longrightarrow> \<not> P x \<Longrightarrow> P y \<Longrightarrow> \<not> cmp x y \<le> 0"
  shows "arraySort cmp xs = filter P xs @ arraySort cmp (filter (\<lambda>x. \<not> P x) xs)"
  using assms
proof (induction xs)
  case Nil
  show ?case by (simp add: arraySort_def)
next
  case (Cons x xs)
  have step: "arraySort cmp (x # xs) = insertBy cmp x (arraySort cmp xs)"
    by (simp add: arraySort_def)
  have IH: "arraySort cmp xs = filter P xs @ arraySort cmp (filter (\<lambda>x. \<not> P x) xs)"
    using Cons.prems by (intro Cons.IH) auto
  show ?case
  proof (cases "P x")
    case True
    have "arraySort cmp xs = [] \<or> cmp x (hd (arraySort cmp xs)) \<le> 0"
    proof (cases "arraySort cmp xs")
      case Nil
      then show ?thesis by simp
    next
      case (Cons y ys)
      then have "y \<in> set xs" using set_arraySort [of cmp xs] by auto
      then have "cmp x y \<le> 0" using True Cons.prems(1) [of x y] by simp
      with Cons show ?thesis by simp
    qed
    then have "arraySort cmp (x # xs) = x # arraySort cmp xs"
      unfolding step by (rule insertBy_front)
    with True IH show ?thesis by simp
  next
    case False
    have "insertBy cmp x (filter P xs @ arraySort cmp (filter (\<lambda>x. \<not> P x) xs))
        = filter P xs @ insertBy cmp x (arraySort cmp (filter (\<lambda>x. \<not> P x) xs))"
    proof (rule insertBy_past)
      fix y assume "y \<in> set (filter P xs)"
      then show "\<not> cmp x y \<le> 0" using False Cons.prems(2) [of x y] by simp
    qed
    with False IH show ?thesis by (simp add: step arraySort_def)
  qed
qed

lemma valid_letter:
  "message (validateSearchInput q) = MsgValid \<Longrightarrow> list_ex isLetter (sanitizeInput q)"
  by (auto simp: validateSearchInput_def Let_def split: if_splits)

lemma letter_word: "list_ex isLetter s \<Longrightarrow> list_ex (\<lambda>c. \<not> isWhitespace c) (toLowerCase s)"
  by (auto simp: list_ex_iff toLowerCase_def isWhitespace_lowerChar dest: letter_plain)

lemma search_normal:
  assumes "p \<noteq> []" and "trim p = p" and "list_ex isLetter p"
  shows "queryWordsOf (toLowerCase p) \<noteq> []"
    and "searchWithFuzzyMatching bs p =
      Inr (take 10 (arraySort compareResults
        (concat (map (scoreEntry (toLowerCase p) (queryWordsOf (toLowerCase p)))
           (filter (isRelevant (toLowerCase p) (queryWordsOf (toLowerCase p))) bs)))))"
proof -
  have nq: "trim (toLowerCase p) = toLowerCase p"
    by (simp add: trim_toLowerCase assms(2))
  show w: "queryWordsOf (toLowerCase p) \<noteq> []"
    by (rule queryWordsOf_nonempty) (rule letter_word [OF assms(3)])
  show "searchWithFuzzyMatching bs p =
      Inr (take 10 (arraySort compareResults
        (concat (map (scoreEntry (toLowerCase p) (queryWordsOf (toLowerCase p)))
           (filter (isRelevant (toLowerCase p) (queryWordsOf (toLowerCase p))) bs)))))"
    using assms(1) w by (simp add: searchWithFuzzyMatching_def Let_def nq)
qed

lemma top_count:
  "length (filter (\<lambda>r. relevanceScore r = 1)
      (concat (map (scoreEntry (toLowerCase p) ws) (filter (isRelevant (toLowerCase p) ws) bs))))
   \<le> length (filter (samePhrase p) bs)"
proof (induction bs)
  case Nil
  show ?case by simp
next
  case (Cons entry bs)
  have one: "length (filter (\<lambda>r. relevanceScore r = 1) (scoreEntry (toLowerCase p) ws entry))
      \<le> (if samePhrase p entry then 1 else 0)"
  proof (cases "samePhrase p entry")
    case True
    have "length (filter (\<lambda>r. relevanceScore r = 1) (scoreEntry (toLowerCase p) ws entry))
        \<le> length (scoreEntry (toLowerCase p) ws entry)"
      by (rule length_filter_le)
    also have "\<dots> \<le> 1" by (rule scoreEntry_length)
    finally show ?thesis using True by simp
  next
    case False
    have "relevanceScore r \<noteq> 1" if "r \<in> set (scoreEntry (toLowerCase p) ws entry)" for r
    proof
      assume s: "relevanceScore r = 1"
      from scoreEntry_cases [OF that] obtain b where b: "entry = Some b"
        "calculateRelevanceScore b (toLowerCase p) ws = Inr r" by blast
      from calculateRelevanceScore_cases [OF b(2)] s
      have "toLowerCase (match r) = toLowerCase p" by auto
      with calculateRelevanceScore_phrase [OF b(2)] b(1) have "samePhrase p entry"
        by (simp add: samePhrase_def)
      with False show False by simp
    qed
    then have "filter (\<lambda>r. relevanceScore r = 1) (scoreEntry (toLowerCase p) ws entry) = []"
      by (auto simp: filter_empty_conv)
    then show ?thesis by simp
  qed
  show ?case
  proof (cases "isRelevant (toLowerCase p) ws entry")
    case True
    with one Cons.IH show ?thesis by (cases "samePhrase p entry") simp_all
  next
    case False
    with Cons.IH show ?thesis by (cases "samePhrase p entry") simp_all
  qed
qed

text \<open>
  Claim C2, as amended. For every entry whose phrase is a valid query that sanitization
  leaves unchanged, the search for the phrase returns a non-empty list whose first result
  is an exact match for the phrase with score 1; every result with score 1 stands before
  every result with a lower score; and the result of the entry itself is in the list when
  at most 10 entries carry the phrase.
\<close>

theorem C2_exact_first:
  assumes "Some e \<in> set buzzwords" and "phrase e = Some p"
    and "message (validateSearchInput p) = MsgValid" and "sanitizeInput p = p"
  shows "\<exists>r rs. search buzzwords p = ShowResults (r # rs)
     \<and> matchType r = Exact \<and> relevanceScore r = 1 \<and> toLowerCase (match r) = toLowerCase p
     \<and> (\<forall>i j. i < length (r # rs) \<and> j < length (r # rs) \<and> relevanceScore ((r # rs) ! i) = 1
            \<and> relevanceScore ((r # rs) ! j) < 1 \<longrightarrow> i < j)
     \<and> (length (filter (samePhrase p) buzzwords) \<le> 10 \<longrightarrow>
          resultFor e 1 [toLowerCase p] Exact \<in> set (r # rs))"
proof -
  define nq where "nq = toLowerCase p"
  define ws where "ws = queryWordsOf nq"
  define xs where "xs = concat (map (scoreEntry nq ws) (filter (isRelevant nq ws) buzzwords))"
  define P where "P = (\<lambda>r::result. relevanceScore r = 1)"
  define es where "es = filter P xs"
  define os where "os = arraySort compareResults (filter (\<lambda>x. \<not> P x) xs)"
  define own where "own = resultFor e 1 [nq] Exact"
  have pne: "p \<noteq> []" using valid_nonempty [OF assms(3)] assms(4) by simp
  have tr: "trim p = p" using sanitizeInput_trimmed [of p] assms(4) by simp
  have le: "list_ex isLetter p" using valid_letter [OF assms(3)] assms(4) by simp
  have search: "searchWithFuzzyMatching buzzwords p = Inr (take 10 (arraySort compareResults xs))"
    unfolding xs_def ws_def nq_def by (rule search_normal(2) [OF pne tr le])
  have perform: "search buzzwords p = ShowResults (take 10 (arraySort compareResults xs))"
    by (simp add: search_valid [OF assms(3)] assms(4) search)
  have cases: "(matchType x = Exact \<and> relevanceScore x = 1 \<and> toLowerCase (match x) = nq)
       \<or> (matchType x \<noteq> Exact \<and> relevanceScore x \<le> 95 / 100)" if "x \<in> set xs" for x
  proof -
    from that obtain entry where "x \<in> set (scoreEntry nq ws entry)"
      by (auto simp: xs_def)
    from scoreEntry_cases [OF this] obtain b where "calculateRelevanceScore b nq ws = Inr x"
      by blast
    then show ?thesis by (rule calculateRelevanceScore_cases)
  qed
  have topP: "matchType x = Exact \<and> relevanceScore x = 1 \<and> toLowerCase (match x) = nq"
    if "x \<in> set xs" "P x" for x
    using cases [OF that(1)] that(2) by (auto simp: P_def)
  have lowP: "relevanceScore x \<le> 95 / 100" if "x \<in> set xs" "\<not> P x" for x
    using cases [OF that(1)] that(2) by (auto simp: P_def)
  have ownP: "P own" by (simp add: own_def P_def resultFor_def)
  have own_in: "own \<in> set xs"
  proof -
    have "Some e \<in> set (filter (isRelevant nq ws) buzzwords)"
      using assms(1) isRelevant_exact [OF assms(2) pne] by (simp add: nq_def)
    moreover have "own \<in> set (scoreEntry nq ws (Some e))"
      by (simp add: own_def nq_def scoreEntry_exact [OF assms(2)])
    ultimately show ?thesis unfolding xs_def by auto
  qed
  have len: "length (match x) = length nq" if "x \<in> set xs" "P x" for x
  proof -
    have "length (toLowerCase (match x)) = length nq" using topP [OF that] by simp
    then show ?thesis by (simp add: toLowerCase_def)
  qed
  have top: "compareResults x y \<le> 0" if "x \<in> set xs" "y \<in> set xs" "P x" for x y
  proof (cases "P y")
    case True
    have t: "tied x y" using topP [OF that(1,3)] topP [OF that(2) True] by (simp add: tied_def)
    show ?thesis
      unfolding compareResults_tied [OF t]
      using topP [OF that(1,3)] topP [OF that(2) True] len [OF that(1,3)] len [OF that(2) True]
      by simp
  next
    case False
    have t: "\<not> tied x y" using topP [OF that(1,3)] lowP [OF that(2) False] by (simp add: tied_def)
    show ?thesis
      unfolding compareResults_far [OF t]
      using topP [OF that(1,3)] lowP [OF that(2) False] by simp
  qed
  have low: "\<not> compareResults x y \<le> 0" if "x \<in> set xs" "y \<in> set xs" "\<not> P x" "P y" for x y
  proof -
    have t: "\<not> tied x y" using topP [OF that(2,4)] lowP [OF that(1,3)] by (simp add: tied_def)
    show ?thesis
      unfolding compareResults_far [OF t]
      using topP [OF that(2,4)] lowP [OF that(1,3)] by simp
  qed
  have sorted: "arraySort compareResults xs = es @ os"
    unfolding es_def os_def using top low by (rule arraySort_partition)
  have es_ne: "es \<noteq> []" using own_in ownP by (auto simp: es_def filter_empty_conv)
  have es_top: "matchType x = Exact \<and> relevanceScore x = 1 \<and> toLowerCase (match x) = nq"
    if "x \<in> set es" for x
    using that topP [of x] by (simp add: es_def)
  have os_low: "relevanceScore x \<le> 95 / 100" if "x \<in> set os" for x
    using that lowP [of x] by (simp add: os_def set_arraySort)
  obtain r es' where es: "es = r # es'" using es_ne by (cases es) auto
  define srt where "srt = es @ os"
  let ?all = "take 10 srt"
  have all: "?all = r # take 9 (es' @ os)" by (simp add: srt_def es)
  have nth_all: "?all ! i = (es @ os) ! i" if "i < length ?all" for i
    using that unfolding srt_def [symmetric] by simp
  have order: "i < j" if "i < length ?all" "j < length ?all"
    "relevanceScore (?all ! i) = 1" "relevanceScore (?all ! j) < 1" for i j
  proof -
    have i: "i < length es"
    proof (rule ccontr)
      assume "\<not> i < length es"
      then have "(es @ os) ! i = os ! (i - length es)" "i - length es < length os"
        using that(1) by (auto simp: nth_append srt_def)
      then have "(es @ os) ! i \<in> set os" by (metis nth_mem)
      from os_low [OF this] that(3) nth_all [OF that(1)] show False by simp
    qed
    have j: "\<not> j < length es"
    proof
      assume "j < length es"
      then have "(es @ os) ! j \<in> set es" by (simp add: nth_append)
      from es_top [OF this] that(4) nth_all [OF that(2)] show False by simp
    qed
    from i j show ?thesis by simp
  qed
  have own_all: "own \<in> set ?all" if "length (filter (samePhrase p) buzzwords) \<le> 10"
  proof -
    have "length es \<le> length (filter (samePhrase p) buzzwords)"
      unfolding es_def P_def xs_def nq_def by (rule top_count)
    with that have "length es \<le> 10" by simp
    then have "take 10 srt = es @ take (10 - length es) os" by (simp add: srt_def)
    moreover have "own \<in> set es" using own_in ownP by (simp add: es_def)
    ultimately show ?thesis by simp
  qed
  have r: "matchType r = Exact \<and> relevanceScore r = 1 \<and> toLowerCase (match r) = nq"
    using es_top [of r] by (simp add: es)
  have p2: "search buzzwords p = ShowResults (r # take 9 (es' @ os))"
    using perform sorted all by (simp add: srt_def)
  have o2: "\<forall>i j. i < length (r # take 9 (es' @ os)) \<and> j < length (r # take 9 (es' @ os))
      \<and> relevanceScore ((r # take 9 (es' @ os)) ! i) = 1
      \<and> relevanceScore ((r # take 9 (es' @ os)) ! j) < 1 \<longrightarrow> i < j"
    using order unfolding all by blast
  have c2: "length (filter (samePhrase p) buzzwords) \<le> 10 \<longrightarrow>
      resultFor e 1 [toLowerCase p] Exact \<in> set (r # take 9 (es' @ os))"
    using own_all unfolding all own_def nq_def by blast
  from p2 r o2 c2 show ?thesis unfolding nq_def by blast
qed

lemma search_kpi:
  "search [Some keyStakeholderEntry, Some kpiEntry] ''key performance indicator''
   = ShowResults [resultFor kpiEntry 1 [''key performance indicator''] Exact,
                  resultFor keyStakeholderEntry (41 / 80) [''key''] Keyword]"
  by code_simp

lemma valid_kpi: "message (validateSearchInput ''key performance indicator'') = MsgValid"
  by code_simp

lemma sanitize_kpi: "sanitizeInput ''key performance indicator'' = ''key performance indicator''"
  by code_simp

lemma count_kpi:
  "length (filter (samePhrase ''key performance indicator'') [Some keyStakeholderEntry, Some kpiEntry]) \<le> 10"
  by simp

text \<open>
  The phrase \<open>key performance indicator\<close>, with an entry that matches it by keyword put
  first in the dictionary.
\<close>

theorem C2_exact_first_witness:
  "Some kpiEntry \<in> set [Some keyStakeholderEntry, Some kpiEntry]
   \<and> phrase kpiEntry = Some ''key performance indicator''
   \<and> message (validateSearchInput ''key performance indicator'') = MsgValid
   \<and> sanitizeInput ''key performance indicator'' = ''key performance indicator''
   \<and> length (filter (samePhrase ''key performance indicator'')
         [Some keyStakeholderEntry, Some kpiEntry]) \<le> 10
   \<and> search [Some keyStakeholderEntry, Some kpiEntry] ''key performance indicator''
     = ShowResults [resultFor kpiEntry 1 [''key performance indicator''] Exact,
                    resultFor keyStakeholderEntry (41 / 80) [''key''] Keyword]
   \<and> relevanceScore (resultFor kpiEntry 1 [''key performance indicator''] Exact) = 1
   \<and> relevanceScore (resultFor keyStakeholderEntry (41 / 80) [''key''] Keyword) < 1
   \<and> resultFor kpiEntry 1 [toLowerCase ''key performance indicator''] Exact
       \<in> set [resultFor kpiEntry 1 [''key performance indicator''] Exact,
              resultFor keyStakeholderEntry (41 / 80) [''key''] Keyword]"
proof -
  let ?d = "[Some keyStakeholderEntry, Some kpiEntry]"
  let ?q = "''key performance indicator''"
  let ?rs = "[resultFor kpiEntry 1 [?q] Exact, resultFor keyStakeholderEntry (41 / 80) [''key''] Keyword]"
  have h1: "Some kpiEntry \<in> set ?d" by simp
  have h2: "phrase kpiEntry = Some ?q" by (simp add: kpiEntry_def)
  from C2_exact_first [OF h1 h2 valid_kpi sanitize_kpi]
  obtain r rs where rs: "search ?d ?q = ShowResults (r # rs)"
    and own: "length (filter (samePhrase ?q) ?d) \<le> 10 \<longrightarrow>
          resultFor kpiEntry 1 [toLowerCase ?q] Exact \<in> set (r # rs)"
    by blast
  from rs have eq: "r # rs = ?rs" by (simp only: search_kpi outcome.inject)
  from own count_kpi have "resultFor kpiEntry 1 [toLowerCase ?q] Exact \<in> set ?rs"
    unfolding eq by blast
  moreover have "relevanceScore (resultFor kpiEntry 1 [?q] Exact) = 1"
    "relevanceScore (resultFor keyStakeholderEntry (41 / 80) [''key''] Keyword) < 1"
    by (simp_all add: resultFor_def)
  ultimately show ?thesis
    using h1 h2 valid_kpi sanitize_kpi count_kpi search_kpi by blast
qed

lemma search_offline:
  "search [Some offlineEntry] ''let's take this offline''
   = ShowResults [resultFor offlineEntry (29 / 50) [''take'', ''offline''] Keyword]"
  by code_simp

lemma valid_offline: "message (validateSearchInput ''let's take this offline'') = MsgValid"
  by code_simp

text \<open>
  Claim C2 as stated fails for the entry \<open>let's take this offline\<close>: its phrase is a
  valid query, the apostrophe is stripped before the search, and the only result is a
  keyword match with score 0.58.
\<close>

theorem C2_counterexample:
  "phrase offlineEntry = Some ''let's take this offline''
   \<and> message (validateSearchInput ''let's take this offline'') = MsgValid
   \<and> search [Some offlineEntry] ''let's take this offline''
     = ShowResults [resultFor offlineEntry (29 / 50) [''take'', ''offline''] Keyword]"
  using search_offline valid_offline by (simp add: offlineEntry_def)

section \<open>Properties of the pre-filter and of the results\<close>

lemma search_results_from_matcher:
  assumes "searchWithFuzzyMatching bs q = Inr rs" and "r \<in> set rs"
  shows "\<exists>b. Some b \<in> set bs
     \<and> isRelevant (trim (toLowerCase q)) (queryWordsOf (trim (toLowerCase q))) (Some b)
     \<and> calculateRelevanceScore b (trim (toLowerCase q)) (queryWordsOf (trim (toLowerCase q))) = Inr r
     \<and> relevanceScore r > 1 / 10"
proof -
  define nq where "nq = trim (toLowerCase q)"
  define ws where "ws = queryWordsOf nq"
  define xs where "xs = concat (map (scoreEntry nq ws) (filter (isRelevant nq ws) bs))"
  have "rs = [] \<or> rs = take 10 (arraySort compareResults xs)"
    using assms(1) unfolding searchWithFuzzyMatching_def Let_def xs_def ws_def nq_def
    by (auto split: if_splits)
  with assms(2) have "r \<in> set (take 10 (arraySort compareResults xs))" by auto
  then have "r \<in> set xs" using set_take_subset [of 10 "arraySort compareResults xs"]
    by (auto simp: set_arraySort)
  then obtain entry where e: "entry \<in> set bs" "isRelevant nq ws entry" "r \<in> set (scoreEntry nq ws entry)"
    unfolding xs_def by auto
  from scoreEntry_cases [OF e(3)] obtain b where b: "entry = Some b"
    "calculateRelevanceScore b nq ws = Inr r" by blast
  have "relevanceScore r > 1 / 10"
    using e(3) b by (auto simp: scoreEntry_def split: if_splits)
  with e b show ?thesis unfolding nq_def ws_def by blast
qed

lemma isRelevant_phrase:
  "isRelevant nq ws (Some b) \<Longrightarrow> \<exists>p. phrase b = Some p \<and> p \<noteq> []"
  by (auto simp: isRelevant_def split: option.splits if_splits)

text \<open>
  Claim C1. The pre-filter changes the result: for the entry \<open>synergy\<close> and the queries
  \<open>synergyy\<close> and \<open>synergi\<close> the search returns nothing, while the matcher run over
  every entry returns the entry, as a query-contains match with score 0.9 and as a keyword
  match with score 0.45625.
\<close>

theorem C1_prefilter_drops_matches:
  "searchWithFuzzyMatching [Some synergyEntry] ''synergyy'' = Inr []
   \<and> searchEveryEntry [Some synergyEntry] ''synergyy''
       = Inr [resultFor synergyEntry (9 / 10) [''synergy''] QueryContains]
   \<and> searchWithFuzzyMatching [Some synergyEntry] ''synergi'' = Inr []
   \<and> searchEveryEntry [Some synergyEntry] ''synergi''
       = Inr [resultFor synergyEntry (73 / 160) [''synergi''] Keyword]"
proof -
  have 1: "searchWithFuzzyMatching [Some synergyEntry] ''synergyy'' = Inr []" by code_simp
  have 2: "searchEveryEntry [Some synergyEntry] ''synergyy''
       = Inr [resultFor synergyEntry (9 / 10) [''synergy''] QueryContains]" by code_simp
  have 3: "searchWithFuzzyMatching [Some synergyEntry] ''synergi'' = Inr []" by code_simp
  have 4: "searchEveryEntry [Some synergyEntry] ''synergi''
       = Inr [resultFor synergyEntry (73 / 160) [''synergi''] Keyword]" by code_simp
  from 1 2 3 4 show ?thesis by blast
qed


text \<open>
  Claim C5, as amended. The matcher scores the entry \<open>synergy\<close> against the query
  \<open>synergyy\<close> as a query-contains match with score 0.9, because the query contains the
  phrase and rule 3 comes before rule 5; and whatever the dictionary, a result of the
  search for \<open>synergyy\<close> whose phrase is \<open>synergy\<close> has this type and score, above 0.1.
\<close>

theorem C5_synergyy:
  "calculateRelevanceScore synergyEntry ''synergyy'' [''synergyy'']
     = Inr (resultFor synergyEntry (9 / 10) [''synergy''] QueryContains)
   \<and> (search bs ''synergyy'' = ShowResults rs \<and> r \<in> set rs
        \<and> toLowerCase (match r) = ''synergy''
      \<longrightarrow> matchType r = QueryContains \<and> relevanceScore r = 9 / 10 \<and> relevanceScore r > 1 / 10)"
proof -
  have m: "calculateRelevanceScore synergyEntry ''synergyy'' [''synergyy'']
     = Inr (resultFor synergyEntry (9 / 10) [''synergy''] QueryContains)"
    by code_simp
  have v: "message (validateSearchInput ''synergyy'') = MsgValid" by code_simp
  have sn: "sanitizeInput ''synergyy'' = ''synergyy''" by code_simp
  have nq: "trim (toLowerCase ''synergyy'') = ''synergyy''" by code_simp
  have i1: "\<not> includesStr ''synergy'' ''synergyy''" by code_simp
  have i2: "includesStr ''synergyy'' ''synergy''" by code_simp
  have g: "matchType r = QueryContains \<and> relevanceScore r = 9 / 10 \<and> relevanceScore r > 1 / 10"
    if "search bs ''synergyy'' = ShowResults rs" "r \<in> set rs"
      "toLowerCase (match r) = ''synergy''"
  proof -
    from that(1) have "searchWithFuzzyMatching bs ''synergyy'' = Inr rs"
      by (simp add: search_valid [OF v] sn split: sum.splits)
    from search_results_from_matcher [OF this that(2)] obtain b ws where
      b: "calculateRelevanceScore b ''synergyy'' ws = Inr r"
      unfolding nq by blast
    from calculateRelevanceScore_phrase [OF b] have p: "phrase b = Some (match r)" .
    define R where "R = \<lparr>match = match r, resTranslation = translation b,
         relevanceScore = 9 / 10, matchedKeywords = dedupe [''synergy''],
         resCategory = category b, resUsage = usage b, resAlternatives = alternatives b,
         resMultipleMeanings = multipleMeanings b, matchType = QueryContains\<rparr>"
    have "scoreRules b ''synergy'' ''synergyy'' ws = Inr (9 / 10, [''synergy''], QueryContains)"
      using i1 i2 by (simp add: scoreRules_def)
    then have "calculateRelevanceScore b ''synergyy'' ws = Inr R"
      using p that(3) by (simp add: calculateRelevanceScore_def fuzzyRule_def Let_def R_def)
    with b have "r = R" by simp
    then have "matchType r = matchType R" "relevanceScore r = relevanceScore R" by simp_all
    then show ?thesis by (simp add: R_def)
  qed
  from m g show ?thesis by blast
qed

text \<open>
  Claim C5 as stated fails: with the entry \<open>synergy\<close> as the dictionary, the search for
  \<open>synergyy\<close> returns no result.
\<close>

theorem C5_counterexample: "search [Some synergyEntry] ''synergyy'' = ShowResults []"
  by code_simp

lemma search_typoKeyword:
  "search [Some typoKeywordEntry] ''synergyy''
   = ShowResults [resultFor typoKeywordEntry (9 / 10) [''synergy''] QueryContains]"
  by code_simp

text \<open>An entry that the search for \<open>synergyy\<close> does return.\<close>

theorem C5_synergyy_witness:
  "search [Some typoKeywordEntry] ''synergyy''
     = ShowResults [resultFor typoKeywordEntry (9 / 10) [''synergy''] QueryContains]
   \<and> resultFor typoKeywordEntry (9 / 10) [''synergy''] QueryContains
       \<in> set [resultFor typoKeywordEntry (9 / 10) [''synergy''] QueryContains]
   \<and> toLowerCase (match (resultFor typoKeywordEntry (9 / 10) [''synergy''] QueryContains)) = ''synergy''
   \<and> matchType (resultFor typoKeywordEntry (9 / 10) [''synergy''] QueryContains) = QueryContains
   \<and> relevanceScore (resultFor typoKeywordEntry (9 / 10) [''synergy''] QueryContains) = 9 / 10"
proof -
  let ?r = "resultFor typoKeywordEntry (9 / 10) [''synergy''] QueryContains"
  have m: "toLowerCase (match ?r) = ''synergy''" by code_simp
  have i: "?r \<in> set [?r]" by simp
  from C5_synergyy [of "[Some typoKeywordEntry]" "[?r]" ?r] search_typoKeyword m i
  have "matchType ?r = QueryContains \<and> relevanceScore ?r = 9 / 10" by blast
  with search_typoKeyword m i show ?thesis by blast
qed


section \<open>Properties of loading\<close>

lemma loadDictionary_cases:
  "loadDictionary bs =
     (if bs = [] then Inl EmptyOrInvalid
      else if 2 * length (filter isInvalidBuzzword bs) > length bs then Inl TooManyInvalid
      else Inr bs)"
proof -
  have "(real (length (filter isInvalidBuzzword bs)) > real (length bs) * (5 / 10))
      = (2 * length (filter isInvalidBuzzword bs) > length bs)"
  proof -
    have "(real (length bs) * (5 / 10) < real (length (filter isInvalidBuzzword bs)))
        = (real (length bs) < real (2 * length (filter isInvalidBuzzword bs)))"
      by (simp add: field_simps)
    also have "\<dots> = (length bs < 2 * length (filter isInvalidBuzzword bs))"
      by (rule of_nat_less_iff)
    finally show ?thesis .
  qed
  then show ?thesis by (simp add: loadDictionary_def Let_def)
qed

text \<open>
  Claim C8, as amended. Loading counts the entries that are null or lack a phrase or a
  translation and drops none: it fails exactly when the array is empty or more than half
  of its entries are invalid, and otherwise the engine keeps the array as supplied. A
  search returns results only for entries with a non-empty phrase, with the translation
  of the entry whatever it is.
\<close>

theorem C8_load:
  "(loadDictionary bs = Inl EmptyOrInvalid \<longleftrightarrow> bs = [])
   \<and> (loadDictionary bs = Inl TooManyInvalid \<longleftrightarrow>
        bs \<noteq> [] \<and> length bs < 2 * length (filter isInvalidBuzzword bs))
   \<and> (loadDictionary bs = Inr d \<longleftrightarrow>
        bs \<noteq> [] \<and> 2 * length (filter isInvalidBuzzword bs) \<le> length bs \<and> d = bs)
   \<and> (searchWithFuzzyMatching bs q = Inr rs \<and> r \<in> set rs \<longrightarrow>
        (\<exists>b. Some b \<in> set bs \<and> phrase b = Some (match r) \<and> match r \<noteq> []
           \<and> resTranslation r = translation b))"
proof -
  have s: "\<exists>b. Some b \<in> set bs \<and> phrase b = Some (match r) \<and> match r \<noteq> []
           \<and> resTranslation r = translation b"
    if "searchWithFuzzyMatching bs q = Inr rs" "r \<in> set rs"
  proof -
    from search_results_from_matcher [OF that] obtain b where b: "Some b \<in> set bs"
      "isRelevant (trim (toLowerCase q)) (queryWordsOf (trim (toLowerCase q))) (Some b)"
      "calculateRelevanceScore b (trim (toLowerCase q)) (queryWordsOf (trim (toLowerCase q))) = Inr r"
      by blast
    from isRelevant_phrase [OF b(2)] calculateRelevanceScore_phrase [OF b(3)]
    have "phrase b = Some (match r) \<and> match r \<noteq> []" by auto
    moreover have "resTranslation r = translation b"
      using b(3) by (auto simp: calculateRelevanceScore_def Let_def split: option.splits sum.splits)
    ultimately show ?thesis using b(1) by blast
  qed
  show ?thesis
    using s by (auto simp: loadDictionary_cases)
qed


lemma search_untranslated:
  "search [Some synergyEntry, Some untranslatedEntry] ''synergy''
   = ShowResults [resultFor synergyEntry 1 [''synergy''] Exact,
                  resultFor untranslatedEntry (19 / 20) [''synergy''] PhraseContains]"
  by code_simp

lemma load_untranslated:
  "loadDictionary [Some synergyEntry, Some untranslatedEntry]
   = Inr [Some synergyEntry, Some untranslatedEntry]"
  by (simp add: loadDictionary_cases isInvalidBuzzword_def falsy_def synergyEntry_def
      untranslatedEntry_def)

lemma invalid_untranslated: "isInvalidBuzzword (Some untranslatedEntry)"
  by (simp add: isInvalidBuzzword_def falsy_def untranslatedEntry_def)

text \<open>
  Claim C8 as stated fails: an entry without a translation is kept at load and is
  returned by a search.
\<close>

theorem C8_counterexample:
  "isInvalidBuzzword (Some untranslatedEntry)
   \<and> loadDictionary [Some synergyEntry, Some untranslatedEntry]
       = Inr [Some synergyEntry, Some untranslatedEntry]
   \<and> search [Some synergyEntry, Some untranslatedEntry] ''synergy''
       = ShowResults [resultFor synergyEntry 1 [''synergy''] Exact,
                      resultFor untranslatedEntry (19 / 20) [''synergy''] PhraseContains]
   \<and> resTranslation (resultFor untranslatedEntry (19 / 20) [''synergy''] PhraseContains) = None"
  using invalid_untranslated load_untranslated search_untranslated
  by (simp add: resultFor_def untranslatedEntry_def)

lemma searchFuzzy_untranslated:
  "searchWithFuzzyMatching [Some synergyEntry, Some untranslatedEntry] ''synergy''
   = Inr [resultFor synergyEntry 1 [''synergy''] Exact,
          resultFor untranslatedEntry (19 / 20) [''synergy''] PhraseContains]"
  by code_simp

text \<open>The three outcomes of loading, and a search on the loaded dictionary.\<close>

theorem C8_load_witness:
  "loadDictionary [] = Inl EmptyOrInvalid
   \<and> loadDictionary [None, Some synergyEntry, Some untranslatedEntry] = Inl TooManyInvalid
   \<and> loadDictionary [Some synergyEntry, Some untranslatedEntry]
       = Inr [Some synergyEntry, Some untranslatedEntry]
   \<and> searchWithFuzzyMatching [Some synergyEntry, Some untranslatedEntry] ''synergy''
       = Inr [resultFor synergyEntry 1 [''synergy''] Exact,
              resultFor untranslatedEntry (19 / 20) [''synergy''] PhraseContains]
   \<and> resultFor untranslatedEntry (19 / 20) [''synergy''] PhraseContains
       \<in> set [resultFor synergyEntry 1 [''synergy''] Exact,
              resultFor untranslatedEntry (19 / 20) [''synergy''] PhraseContains]
   \<and> Some untranslatedEntry \<in> set [Some synergyEntry, Some untranslatedEntry]
   \<and> phrase untranslatedEntry
       = Some (match (resultFor untranslatedEntry (19 / 20) [''synergy''] PhraseContains))
   \<and> match (resultFor untranslatedEntry (19 / 20) [''synergy''] PhraseContains) \<noteq> []"
proof -
  let ?d = "[Some synergyEntry, Some untranslatedEntry]"
  let ?r = "resultFor untranslatedEntry (19 / 20) [''synergy''] PhraseContains"
  let ?rs = "[resultFor synergyEntry 1 [''synergy''] Exact, ?r]"
  have inv: "filter isInvalidBuzzword ?d = [Some untranslatedEntry]"
    by (simp add: isInvalidBuzzword_def falsy_def synergyEntry_def untranslatedEntry_def)
  have inv3: "filter isInvalidBuzzword [None, Some synergyEntry, Some untranslatedEntry]
      = [None, Some untranslatedEntry]"
    by (simp add: isInvalidBuzzword_def falsy_def synergyEntry_def untranslatedEntry_def)
  have a: "loadDictionary [] = Inl EmptyOrInvalid"
    using C8_load [of "[]" ?d "''synergy''" ?rs ?r] by simp
  have b: "loadDictionary [None, Some synergyEntry, Some untranslatedEntry] = Inl TooManyInvalid"
  proof -
    let ?e = "[None, Some synergyEntry, Some untranslatedEntry]"
    from C8_load [of ?e ?d "''synergy''" ?rs ?r]
    have "loadDictionary ?e = Inl TooManyInvalid \<longleftrightarrow>
        ?e \<noteq> [] \<and> length ?e < 2 * length (filter isInvalidBuzzword ?e)"
      by blast
    then show ?thesis unfolding inv3 by simp
  qed
  have c: "loadDictionary ?d = Inr ?d"
  proof -
    from C8_load [of ?d ?d "''synergy''" ?rs ?r]
    have "loadDictionary ?d = Inr ?d \<longleftrightarrow>
        ?d \<noteq> [] \<and> 2 * length (filter isInvalidBuzzword ?d) \<le> length ?d \<and> ?d = ?d"
      by blast
    then show ?thesis unfolding inv by simp
  qed
  have m: "phrase untranslatedEntry = Some (match ?r) \<and> match ?r \<noteq> []"
    by (simp add: resultFor_def untranslatedEntry_def)
  from a b c m searchFuzzy_untranslated show ?thesis by simp
qed

section \<open>Properties of sanitization\<close>
















section \<open>Properties of the cache\<close>

lemma search_lower:
  "q \<noteq> [] \<Longrightarrow> q' \<noteq> [] \<Longrightarrow> toLowerCase q = toLowerCase q' \<Longrightarrow>
   searchWithFuzzyMatching bs q = searchWithFuzzyMatching bs q'"
  by (simp add: searchWithFuzzyMatching_def)

lemma cacheSound_Nil: "cacheSound bs []"
  by (simp add: cacheSound_def)

lemma cacheSearchResults_set:
  "set (cacheSearchResults c k rs) \<subseteq> insert (k, rs) (set c)"
proof -
  define kept where "kept = (if length c \<ge> 100 then tl c else c)"
  have kept: "set kept \<subseteq> set c" unfolding kept_def by (cases c) auto
  have "set (cacheSearchResults c k rs) \<subseteq> insert (k, rs) (set kept)"
  proof (cases "list_ex (\<lambda>entry. fst entry = k) kept")
    case True
    then have "cacheSearchResults c k rs = map (\<lambda>entry. if fst entry = k then (k, rs) else entry) kept"
      unfolding cacheSearchResults_def Let_def kept_def [symmetric] by simp
    then show ?thesis by auto
  next
    case False
    then have "cacheSearchResults c k rs = kept @ [(k, rs)]"
      unfolding cacheSearchResults_def Let_def kept_def [symmetric] by simp
    then show ?thesis by auto
  qed
  with kept show ?thesis by blast
qed

lemma cacheSearchResults_length: "length (cacheSearchResults c k rs) \<le> max 100 (length c)"
  by (cases c) (auto simp: cacheSearchResults_def Let_def)

lemma cacheSound_store:
  assumes "cacheSound bs c" and "q \<noteq> []" and "searchWithFuzzyMatching bs q = Inr rs"
  shows "cacheSound bs (cacheSearchResults c (toLowerCase q) rs)"
  unfolding cacheSound_def
proof (intro allI impI)
  fix key results q'
  assume a: "(key, results) \<in> set (cacheSearchResults c (toLowerCase q) rs) \<and> q' \<noteq> []
      \<and> toLowerCase q' = key"
  with cacheSearchResults_set [of c "toLowerCase q" rs]
  have "(key, results) = (toLowerCase q, rs) \<or> (key, results) \<in> set c" by blast
  then show "searchWithFuzzyMatching bs q' = Inr results"
  proof
    assume "(key, results) = (toLowerCase q, rs)"
    with a have "toLowerCase q' = toLowerCase q" "results = rs" "q' \<noteq> []" by simp_all
    with search_lower [of q' q bs] assms(2,3) show ?thesis by simp
  next
    assume "(key, results) \<in> set c"
    with a assms(1) show ?thesis unfolding cacheSound_def by blast
  qed
qed

text \<open>
  With a sound cache a call shows what the search on an empty cache shows, leaves the
  cache sound, and lets it grow to 100 entries at most.
\<close>

theorem cache_transparent:
  assumes "cacheSound bs c"
  shows "fst (performSearch bs c q) = search bs q
    \<and> cacheSound bs (snd (performSearch bs c q))
    \<and> length (snd (performSearch bs c q)) \<le> max 100 (length c)"
proof (cases "message (validateSearchInput q) = MsgValid")
  case False
  then have "performSearch bs c q = (search bs q, c)"
    by (auto simp: performSearch_def search_unfold validateSearchInput_def Let_def split: if_splits)
  with assms show ?thesis by simp
next
  case True
  let ?s = "sanitizeInput q"
  have ne: "?s \<noteq> []" by (rule valid_nonempty [OF True])
  have v: "sanitized (validateSearchInput q) = ?s" "valid (validateSearchInput q)"
    using True by (auto simp: validateSearchInput_def Let_def split: if_splits)
  have srch: "search bs q = (case searchWithFuzzyMatching bs ?s of
      Inl e \<Rightarrow> ShowError | Inr rs \<Rightarrow> ShowResults rs)"
    by (rule search_valid [OF True])
  show ?thesis
  proof (cases "map_of c (toLowerCase ?s)")
    case (Some rs)
    then have "(toLowerCase ?s, rs) \<in> set c" by (rule map_of_SomeD)
    with assms ne have "searchWithFuzzyMatching bs ?s = Inr rs"
      unfolding cacheSound_def by blast
    then have "search bs q = ShowResults rs" by (simp add: srch)
    moreover have "performSearch bs c q = (ShowResults rs, c)"
      using True v Some by (simp add: performSearch_def Let_def)
    ultimately show ?thesis using assms by simp
  next
    case None
    show ?thesis
    proof (cases "searchWithFuzzyMatching bs ?s")
      case (Inl e)
      then have "performSearch bs c q = (ShowError, c)"
        using True v None by (simp add: performSearch_def Let_def)
      with Inl srch assms show ?thesis by simp
    next
      case (Inr rs)
      then have "performSearch bs c q = (ShowResults rs, cacheSearchResults c (toLowerCase ?s) rs)"
        using True v None by (simp add: performSearch_def Let_def)
      with Inr srch cacheSound_store [OF assms ne Inr] cacheSearchResults_length [of c "toLowerCase ?s" rs]
      show ?thesis by simp
    qed
  qed
qed

text \<open>The second of two equal calls is answered from the cache and shows the same.\<close>

corollary cache_second_call:
  "fst (performSearch bs (snd (performSearch bs [] q)) q) = search bs q"
proof -
  have "cacheSound bs (snd (performSearch bs [] q))"
    using cache_transparent [OF cacheSound_Nil, of bs q] by blast
  from cache_transparent [OF this, of q] show ?thesis by blast
qed

end
